theory Spec2Isabelle
  imports Complex_Main "HOL-Library.Monad_Syntax"
begin

section \<open>JavaScript values\<close>

text \<open>
  The party server (\<^verbatim>\<open>server.js\<close>) receives JSON text, parses it and reads properties of
  the parsed value, coercing them with \<^verbatim>\<open>||\<close>, unary \<^verbatim>\<open>+\<close>, \<^verbatim>\<open>String(...)\<close> and string
  methods. The values that \<^verbatim>\<open>JSON.parse\<close> can produce are modelled by \<open>json\<close>; an absent
  property (\<^verbatim>\<open>undefined\<close>) is \<open>None\<close> of \<open>json option\<close>. A parsed object is the list of its
  own properties, every key once (of a key repeated in the text \<^verbatim>\<open>JSON.parse\<close> keeps one
  property). A string is the list of its code units. A number is a double: no arithmetic is done on message numbers, so only the
  distinction between NaN, the two zeros, the infinities and the other values is kept.
\<close>

type_synonym jsstring = string

datatype jsnum = NaN | PosInf | NegInf | NegZero | Fin rat

datatype json =
    JNull
  | JBool bool
  | JNum jsnum
  | JStr jsstring
  | JArr "json list"
  | JObj "(jsstring \<times> json) list"

datatype error = TypeError

text \<open>\<^verbatim>\<open>msg.k\<close> for one of the keys the server reads: an own property of a parsed object,
  \<^verbatim>\<open>undefined\<close> on every other non-null value (none of the keys read by the server is
  inherited from a prototype). On \<^verbatim>\<open>null\<close> the access throws; the handler treats that case
  before calling \<open>get\<close>.\<close>

fun get :: "json \<Rightarrow> jsstring \<Rightarrow> json option" where
  "get (JObj fs) k = map_of fs k"
| "get _ k = None"

text \<open>ToBoolean, as used by \<^verbatim>\<open>||\<close> and \<^verbatim>\<open>if\<close>.\<close>

fun truthy :: "json option \<Rightarrow> bool" where
  "truthy None = False"
| "truthy (Some JNull) = False"
| "truthy (Some (JBool b)) = b"
| "truthy (Some (JNum n)) = (n \<noteq> NaN \<and> n \<noteq> NegZero \<and> n \<noteq> Fin 0)"
| "truthy (Some (JStr s)) = (s \<noteq> [])"
| "truthy (Some (JArr vs)) = True"
| "truthy (Some (JObj fs)) = True"

text \<open>\<^verbatim>\<open>v || d\<close> where \<open>d\<close> is a value.\<close>

fun or_else :: "json option \<Rightarrow> json \<Rightarrow> json" where
  "or_else None d = d"
| "or_else (Some v) d = (if truthy (Some v) then v else d)"

text \<open>
  The built-ins of the JavaScript runtime and the environment of one handler run are
  parameters: the sequence of results of \<^verbatim>\<open>Math.random()\<close> (the \<open>k\<close>-th draw is a natural
  number \<open>r\<close>, and \<^verbatim>\<open>Math.floor(Math.random() * n)\<close> is \<open>r mod n\<close>, any index below \<open>n\<close>),
  the \<^verbatim>\<open>readyState\<close> of every socket, and the string functions whose definition involves
  Unicode tables or floating-point parsing and printing.
\<close>

type_synonym ws = nat

record env =
  Math_random :: "nat \<Rightarrow> nat"
  readyState :: "ws \<Rightarrow> nat"
  toUpperCase :: "jsstring \<Rightarrow> jsstring"
  trim :: "jsstring \<Rightarrow> jsstring"
  StringToNumber :: "jsstring \<Rightarrow> jsnum"
  NumberToString :: "jsnum \<Rightarrow> jsstring"

fun join_comma :: "jsstring list \<Rightarrow> jsstring" where
  "join_comma [] = []"
| "join_comma [s] = s"
| "join_comma (s # t # ss) = s @ '','' @ join_comma (t # ss)"

text \<open>
  ToString of a parsed value; \<open>None\<close> is a thrown TypeError. An array is joined with
  commas, \<^verbatim>\<open>null\<close> elements printing as the empty string. An object prints as
  \<^verbatim>\<open>[object Object]\<close> through the inherited \<^verbatim>\<open>toString\<close>; an object with an own property
  \<^verbatim>\<open>toString\<close> (never callable, coming from JSON) has no primitive value, and the
  conversion throws.
\<close>

fun ToString :: "(jsnum \<Rightarrow> jsstring) \<Rightarrow> json \<Rightarrow> jsstring option" where
  "ToString n2s JNull = Some ''null''"
| "ToString n2s (JBool b) = Some (if b then ''true'' else ''false'')"
| "ToString n2s (JNum n) = Some (n2s n)"
| "ToString n2s (JStr s) = Some s"
| "ToString n2s (JArr vs) =
     map_option join_comma
       (those (map (\<lambda>v. if v = JNull then Some [] else ToString n2s v) vs))"
| "ToString n2s (JObj fs) =
     (if ''toString'' \<in> fst ` set fs then None else Some ''[object Object]'')"

text \<open>The number a string converts to: \<open>+0\<close> for the empty string, the runtime's
  conversion otherwise.\<close>

definition str_num :: "env \<Rightarrow> jsstring \<Rightarrow> jsnum" where
  "str_num e s = (if s = [] then Fin 0 else StringToNumber e s)"

text \<open>ToNumber (unary \<^verbatim>\<open>+\<close>); \<open>None\<close> is a thrown TypeError.\<close>

fun ToNumber :: "env \<Rightarrow> json option \<Rightarrow> jsnum option" where
  "ToNumber e None = Some NaN"
| "ToNumber e (Some JNull) = Some (Fin 0)"
| "ToNumber e (Some (JBool b)) = Some (Fin (if b then 1 else 0))"
| "ToNumber e (Some (JNum n)) = Some n"
| "ToNumber e (Some (JStr s)) = Some (str_num e s)"
| "ToNumber e (Some (JArr vs)) =
     map_option (str_num e) (ToString (NumberToString e) (JArr vs))"
| "ToNumber e (Some (JObj fs)) =
     (if ''toString'' \<in> fst ` set fs then None else Some NaN)"

text \<open>\<^verbatim>\<open>+v || d\<close>: the number \<open>v\<close> coerces to, or \<open>d\<close> when that number is NaN or a zero.\<close>

definition num_or :: "env \<Rightarrow> json option \<Rightarrow> jsnum \<Rightarrow> jsnum option" where
  "num_or e v d =
     map_option (\<lambda>n. if n = NaN \<or> n = NegZero \<or> n = Fin 0 then d else n) (ToNumber e v)"

text \<open>\<^verbatim>\<open>v.slice(0, n)\<close>: defined on strings and arrays; every other value has no callable
  \<^verbatim>\<open>slice\<close>, and the call throws.\<close>

fun slice0 :: "nat \<Rightarrow> json \<Rightarrow> json option" where
  "slice0 n (JStr s) = Some (JStr (take n s))"
| "slice0 n (JArr vs) = Some (JArr (take n vs))"
| "slice0 n _ = None"

text \<open>\<^verbatim>\<open>String(n)\<close> for a non-negative integer below \<open>10^21\<close>: its decimal digits.\<close>

definition digit_char :: "nat \<Rightarrow> char" where
  "digit_char d = ''0123456789'' ! d"

fun String_nat :: "nat \<Rightarrow> jsstring" where
  "String_nat n =
     (if n < 10 then [digit_char n] else String_nat (n div 10) @ [digit_char (n mod 10)])"

declare String_nat.simps [simp del]

section \<open>Utilities\<close>

definition ADJECTIVES :: "jsstring list" where
  "ADJECTIVES = [''Shadow'', ''Neon'', ''Iron'', ''Void'', ''Storm'', ''Pixel'', ''Chaos'', ''Rust'']"

definition NOUNS :: "jsstring list" where
  "NOUNS = [''Bunny'', ''Wuggy'', ''Moth'', ''Glitch'', ''Specter'', ''Wraith'', ''Drone'', ''Echo'']"

definition COLORS :: "jsstring list" where
  "COLORS = [''#ff4444'', ''#44aaff'', ''#44ff88'', ''#ffcc00'',
             ''#ff88cc'', ''#88ffff'', ''#ff8844'', ''#cc88ff'']"

definition chars :: jsstring where
  "chars = ''ABCDEFGHJKLMNPQRSTUVWXYZ23456789''"

text \<open>\<open>genCode e k len\<close>: the code built from the draws \<open>k, ..., k + len - 1\<close>.\<close>

definition genCode :: "env \<Rightarrow> nat \<Rightarrow> nat \<Rightarrow> jsstring" where
  "genCode e k len = map (\<lambda>i. chars ! (Math_random e (k + i) mod length chars)) [0..<len]"

definition genName :: "env \<Rightarrow> nat \<Rightarrow> jsstring" where
  "genName e k =
     ADJECTIVES ! (Math_random e k mod length ADJECTIVES) @
     NOUNS ! (Math_random e (k + 1) mod length NOUNS)"

section \<open>State\<close>

text \<open>
  A JavaScript \<^verbatim>\<open>Map\<close> keeps its entries in insertion order: \<^verbatim>\<open>set\<close> on a present key
  replaces the value in place, on an absent key appends; \<^verbatim>\<open>delete\<close> removes the entry.
\<close>

definition Map_get :: "('k \<times> 'v) list \<Rightarrow> 'k \<Rightarrow> 'v option" where
  "Map_get m k = map_of m k"

definition Map_has :: "('k \<times> 'v) list \<Rightarrow> 'k \<Rightarrow> bool" where
  "Map_has m k = (k \<in> fst ` set m)"

fun Map_set :: "('k \<times> 'v) list \<Rightarrow> 'k \<Rightarrow> 'v \<Rightarrow> ('k \<times> 'v) list" where
  "Map_set [] k v = [(k, v)]"
| "Map_set ((k', v') # m) k v = (if k' = k then (k, v) # m else (k', v') # Map_set m k v)"

definition Map_delete :: "('k \<times> 'v) list \<Rightarrow> 'k \<Rightarrow> ('k \<times> 'v) list" where
  "Map_delete m k = filter (\<lambda>kv. fst kv \<noteq> k) m"

definition Map_size :: "('k \<times> 'v) list \<Rightarrow> nat" where
  "Map_size m = length m"

text \<open>The position state of a player, as the \<^verbatim>\<open>state\<close> handler builds it.\<close>

record state =
  st_x :: jsnum
  st_y :: jsnum
  st_z :: jsnum
  st_yaw :: jsnum
  st_pitch :: jsnum
  st_chap :: jsnum
  st_anim :: json

text \<open>
  A player object is referenced from two maps (\<^verbatim>\<open>clients\<close> and its party's \<^verbatim>\<open>members\<close>) and
  its \<^verbatim>\<open>lastState\<close> is assigned through one of them; the objects live in a store, \<open>heap\<close>,
  and the maps hold addresses (indices into the store). Objects are never removed from the
  store.
\<close>

type_synonym addr = nat

record player =
  p_id :: jsstring
  p_name :: json
  p_color :: jsstring
  p_ws :: ws
  p_partyCode :: jsstring
  p_lastState :: "state option"

record party =
  pt_code :: jsstring
  pt_members :: "(jsstring \<times> addr) list"

text \<open>\<^verbatim>\<open>nextId\<close> is a JavaScript number that counts up from 1; its values are the integers
  from 1 to \<open>2^53\<close>, where the increment no longer changes it.\<close>

record server =
  parties :: "(jsstring \<times> party) list"
  clients :: "(ws \<times> addr) list"
  nextId :: nat
  heap :: "player list"

definition init :: server where
  "init = \<lparr>parties = [], clients = [], nextId = 1, heap = []\<rparr>"

definition incr :: "nat \<Rightarrow> nat" where
  "incr n = (if n < 2 ^ 53 then n + 1 else n)"

section \<open>Messages to clients\<close>

record playerinfo =
  pi_id :: jsstring
  pi_name :: json
  pi_color :: jsstring
  pi_state :: "state option"

text \<open>The objects passed to \<^verbatim>\<open>send\<close>, by their \<^verbatim>\<open>type\<close> field: \<open>Welcome id code players color\<close>,
  \<open>Joined id name color\<close>, \<open>Left id\<close>, \<open>State id state\<close>, \<open>Chat id name text\<close>,
  \<open>Event id ev data\<close>, \<open>Error msg\<close>.\<close>

datatype outmsg =
    Welcome jsstring jsstring "playerinfo list" jsstring
  | Joined jsstring json jsstring
  | Left jsstring
  | State jsstring state
  | Chat jsstring json jsstring
  | Event jsstring "json option" json
  | Error jsstring

text \<open>
  A handler run is described by the calls \<^verbatim>\<open>send(ws, obj)\<close> it makes, in order: the socket
  and the object. \<^verbatim>\<open>send\<close> itself hands the object (serialised with \<^verbatim>\<open>JSON.stringify\<close>) to
  the socket when the socket is open (\<^verbatim>\<open>readyState\<close> 1) and drops it otherwise; \<open>wire\<close> is
  what the calls of a run put on the sockets.
\<close>

type_synonym sends = "(ws \<times> outmsg) list"

definition send :: "env \<Rightarrow> ws \<times> outmsg \<Rightarrow> sends" where
  "send e c = (if readyState e (fst c) = 1 then [c] else [])"

definition wire :: "env \<Rightarrow> sends \<Rightarrow> sends" where
  "wire e calls = concat (map (send e) calls)"

text \<open>\<^verbatim>\<open>broadcast(party, obj, excludeId)\<close>: one call of \<^verbatim>\<open>send\<close> for every entry of the party's
  \<^verbatim>\<open>members\<close> whose key is not \<open>excludeId\<close> (\<open>None\<close> is the default \<^verbatim>\<open>null\<close>, which no key
  equals).\<close>

definition broadcast :: "player list \<Rightarrow> party \<Rightarrow> outmsg \<Rightarrow> jsstring option \<Rightarrow> sends" where
  "broadcast h p obj excludeId =
     map (\<lambda>(i, a). (p_ws (h ! a), obj)) (filter (\<lambda>(i, a). Some i \<noteq> excludeId) (pt_members p))"

section \<open>The message handler\<close>

text \<open>
  A handler run either returns, with the new state and the messages sent, or an exception
  escapes it, after which the Node process terminates; \<open>Throws\<close> records the state and
  the messages sent up to the throw. The \<^verbatim>\<open>while\<close> loop of the create handler may run
  forever: a handler result is an \<open>outcome option\<close>, \<open>None\<close> for a run that does not end.
\<close>

datatype outcome =
    Returns server sends
  | Throws error server sends

text \<open>The raw frame, by the result of \<^verbatim>\<open>JSON.parse(raw)\<close>.\<close>

datatype payload = Unparseable | Parsed json

text \<open>\<^verbatim>\<open>while (parties.has(code)) code = genCode();\<close> where \<open>k\<close> is the number of draws made so
  far.\<close>

partial_function (option) while_has ::
  "env \<Rightarrow> (jsstring \<times> party) list \<Rightarrow> nat \<Rightarrow> jsstring \<Rightarrow> jsstring option" where
  "while_has e ps k code =
     (if Map_has ps code then while_has e ps (k + 4) (genCode e k 4) else Some code)"

declare while_has.simps [code]

text \<open>\<^verbatim>\<open>(msg.name || genName()).slice(0, 20)\<close>, with the number of draws it made; \<open>None\<close> is a
  thrown TypeError.\<close>

definition pick_name :: "env \<Rightarrow> json \<Rightarrow> (json \<times> nat) option" where
  "pick_name e msg =
     (if truthy (get msg ''name'')
      then map_option (\<lambda>n. (n, 0)) (slice0 20 (or_else (get msg ''name'') JNull))
      else Some (JStr (take 20 (genName e 0)), 2))"

definition new_color :: "server \<Rightarrow> jsstring" where
  "new_color s = COLORS ! ((nextId s - 1) mod length COLORS)"

definition create_handler :: "env \<Rightarrow> server \<Rightarrow> ws \<Rightarrow> json \<Rightarrow> outcome option" where
  "create_handler e s w msg =
     (let pid = String_nat (nextId s);
          s1 = s\<lparr>nextId := incr (nextId s)\<rparr>
      in case pick_name e msg of
           None \<Rightarrow> Some (Throws TypeError s1 [])
         | Some (name, k) \<Rightarrow>
             let color = new_color s1
             in case while_has e (parties s1) (k + 4) (genCode e k 4) of
                  None \<Rightarrow> None
                | Some code \<Rightarrow>
                    let a = length (heap s1);
                        player = \<lparr>p_id = pid, p_name = name, p_color = color, p_ws = w,
                                  p_partyCode = code, p_lastState = None\<rparr>;
                        party = \<lparr>pt_code = code, pt_members = Map_set [] pid a\<rparr>;
                        s2 = s1\<lparr>parties := Map_set (parties s1) code party,
                                clients := Map_set (clients s1) w a,
                                heap := heap s1 @ [player]\<rparr>
                    in case ToString (NumberToString e) name of
                         None \<Rightarrow> Some (Throws TypeError s2 [])
                       | Some _ \<Rightarrow>
                           Some (Returns s2 [(w, Welcome pid code [] color)]))"

text \<open>\<^verbatim>\<open>(msg.code || '').toUpperCase().trim()\<close>; \<open>None\<close> is a thrown TypeError (a truthy value
  that is not a string has no \<^verbatim>\<open>toUpperCase\<close>).\<close>

definition norm_code :: "env \<Rightarrow> json \<Rightarrow> jsstring option" where
  "norm_code e msg =
     (case or_else (get msg ''code'') (JStr []) of
        JStr c \<Rightarrow> Some (trim e (toUpperCase e c))
      | _ \<Rightarrow> None)"

definition existing_of :: "player list \<Rightarrow> party \<Rightarrow> playerinfo list" where
  "existing_of h p =
     map (\<lambda>(i, a). \<lparr>pi_id = p_id (h ! a), pi_name = p_name (h ! a),
                     pi_color = p_color (h ! a), pi_state = p_lastState (h ! a)\<rparr>)
         (pt_members p)"

definition join_handler :: "env \<Rightarrow> server \<Rightarrow> ws \<Rightarrow> json \<Rightarrow> outcome" where
  "join_handler e s w msg =
     (case norm_code e msg of
        None \<Rightarrow> Throws TypeError s []
      | Some code \<Rightarrow>
         (case Map_get (parties s) code of
            None \<Rightarrow> Returns s [(w, Error (''Party \"'' @ code @ ''\" not found.''))]
          | Some party \<Rightarrow>
              if Map_size (pt_members party) \<ge> 8
              then Returns s [(w, Error ''Party is full (max 8).'')]
              else
                let pid = String_nat (nextId s);
                    s1 = s\<lparr>nextId := incr (nextId s)\<rparr>
                in case pick_name e msg of
                     None \<Rightarrow> Throws TypeError s1 []
                   | Some (name, k) \<Rightarrow>
                       let color = new_color s1;
                           a = length (heap s1);
                           player = \<lparr>p_id = pid, p_name = name, p_color = color, p_ws = w,
                                     p_partyCode = code, p_lastState = None\<rparr>;
                           existing = existing_of (heap s1) party;
                           party' = party\<lparr>pt_members := Map_set (pt_members party) pid a\<rparr>;
                           s2 = s1\<lparr>parties := Map_set (parties s1) code party',
                                   clients := Map_set (clients s1) w a,
                                   heap := heap s1 @ [player]\<rparr>
                       in case ToString (NumberToString e) name of
                            None \<Rightarrow> Throws TypeError s2 []
                          | Some _ \<Rightarrow>
                              Returns s2
                                ([(w, Welcome pid code existing color)] @
                                 broadcast (heap s2) party' (Joined pid name color) (Some pid))))"

text \<open>The object literal of the state handler; \<open>None\<close> when one of the coercions throws.\<close>

definition state_of :: "env \<Rightarrow> json \<Rightarrow> state option" where
  "state_of e msg = do {
     x \<leftarrow> num_or e (get msg ''x'') (Fin 0);
     y \<leftarrow> num_or e (get msg ''y'') (Fin 0);
     z \<leftarrow> num_or e (get msg ''z'') (Fin 0);
     yaw \<leftarrow> num_or e (get msg ''yaw'') (Fin 0);
     pitch \<leftarrow> num_or e (get msg ''pitch'') (Fin 0);
     chap \<leftarrow> num_or e (get msg ''chap'') (Fin 1);
     Some \<lparr>st_x = x, st_y = y, st_z = z, st_yaw = yaw, st_pitch = pitch, st_chap = chap,
           st_anim = or_else (get msg ''anim'') (JStr ''idle'')\<rparr>
   }"

definition state_handler :: "env \<Rightarrow> server \<Rightarrow> addr \<Rightarrow> json \<Rightarrow> outcome" where
  "state_handler e s a msg =
     (case Map_get (parties s) (p_partyCode (heap s ! a)) of
        None \<Rightarrow> Returns s []
      | Some party \<Rightarrow>
         (case state_of e msg of
            None \<Rightarrow> Throws TypeError s []
          | Some st \<Rightarrow>
              let s' = s\<lparr>heap := (heap s)[a := (heap s ! a)\<lparr>p_lastState := Some st\<rparr>]\<rparr>;
                  info = heap s' ! a
              in Returns s' (broadcast (heap s') party (State (p_id info) st) (Some (p_id info)))))"

definition chat_handler :: "env \<Rightarrow> server \<Rightarrow> ws \<Rightarrow> addr \<Rightarrow> json \<Rightarrow> outcome" where
  "chat_handler e s w a msg =
     (let info = heap s ! a
      in case Map_get (parties s) (p_partyCode info) of
           None \<Rightarrow> Returns s []
         | Some party \<Rightarrow>
            (case ToString (NumberToString e) (or_else (get msg ''text'') (JStr [])) of
               None \<Rightarrow> Throws TypeError s []
             | Some t \<Rightarrow>
                 let text = take 120 t
                 in Returns s
                      (broadcast (heap s) party (Chat (p_id info) (p_name info) text) None @
                       [(w, Chat (p_id info) (p_name info) text)])))"

definition event_handler :: "env \<Rightarrow> server \<Rightarrow> addr \<Rightarrow> json \<Rightarrow> outcome" where
  "event_handler e s a msg =
     (let info = heap s ! a
      in case Map_get (parties s) (p_partyCode info) of
           None \<Rightarrow> Returns s []
         | Some party \<Rightarrow>
             Returns s
               (broadcast (heap s) party
                  (Event (p_id info) (get msg ''ev'') (or_else (get msg ''data'') (JObj [])))
                  (Some (p_id info))))"

definition on_message :: "env \<Rightarrow> server \<Rightarrow> ws \<Rightarrow> payload \<Rightarrow> outcome option" where
  "on_message e s w raw =
     (case raw of
        Unparseable \<Rightarrow> Some (Returns s [])
      | Parsed msg \<Rightarrow>
          if msg = JNull then Some (Throws TypeError s [])
          else
            let info = Map_get (clients s) w
            in if get msg ''type'' = Some (JStr ''create'') then
                 (case info of
                    Some a \<Rightarrow> Some (Returns s [(w, Error ''Already in a party.'')])
                  | None \<Rightarrow> create_handler e s w msg)
               else if get msg ''type'' = Some (JStr ''join'') then
                 (case info of
                    Some a \<Rightarrow> Some (Returns s [(w, Error ''Already in a party.'')])
                  | None \<Rightarrow> Some (join_handler e s w msg))
               else if get msg ''type'' = Some (JStr ''state'') then
                 (case info of
                    None \<Rightarrow> Some (Returns s [])
                  | Some a \<Rightarrow> Some (state_handler e s a msg))
               else if get msg ''type'' = Some (JStr ''chat'') then
                 (case info of
                    None \<Rightarrow> Some (Returns s [])
                  | Some a \<Rightarrow> Some (chat_handler e s w a msg))
               else if get msg ''type'' = Some (JStr ''event'') then
                 (case info of
                    None \<Rightarrow> Some (Returns s [])
                  | Some a \<Rightarrow> Some (event_handler e s a msg))
               else Some (Returns s []))"

section \<open>The close handler\<close>

definition on_close :: "env \<Rightarrow> server \<Rightarrow> ws \<Rightarrow> outcome" where
  "on_close e s w =
     (case Map_get (clients s) w of
        None \<Rightarrow> Returns s []
      | Some a \<Rightarrow>
          let info = heap s ! a
          in case Map_get (parties s) (p_partyCode info) of
               None \<Rightarrow> Returns (s\<lparr>clients := Map_delete (clients s) w\<rparr>) []
             | Some party \<Rightarrow>
                 let party' = party\<lparr>pt_members := Map_delete (pt_members party) (p_id info)\<rparr>;
                     s1 = s\<lparr>parties := Map_set (parties s) (p_partyCode info) party'\<rparr>;
                     out = broadcast (heap s) party' (Left (p_id info)) None
                 in case ToString (NumberToString e) (p_name info) of
                      None \<Rightarrow> Throws TypeError s1 out
                    | Some _ \<Rightarrow>
                        let s2 = (if Map_size (pt_members party') = 0
                                  then s1\<lparr>parties := Map_delete (parties s1) (p_partyCode info)\<rparr>
                                  else s1)
                        in Returns (s2\<lparr>clients := Map_delete (clients s2) w\<rparr>) out)"

section \<open>Runs of the server\<close>

text \<open>The event loop runs one handler at a time, to its end. The states of the server are
  those reached from the initial one by handler runs that return.\<close>

inductive reachable :: "server \<Rightarrow> bool" where
  start: "reachable init"
| message: "reachable s \<Longrightarrow> on_message e s w raw = Some (Returns s' out) \<Longrightarrow> reachable s'"
| close: "reachable s \<Longrightarrow> on_close e s w = Returns s' out \<Longrightarrow> reachable s'"

datatype event = Message env ws payload | Close env ws

fun step :: "server \<Rightarrow> event \<Rightarrow> server option" where
  "step s (Message e w raw) =
     (case on_message e s w raw of Some (Returns s' out) \<Rightarrow> Some s' | _ \<Rightarrow> None)"
| "step s (Close e w) =
     (case on_close e s w of Returns s' out \<Rightarrow> Some s' | _ \<Rightarrow> None)"

fun run :: "server \<Rightarrow> event list \<Rightarrow> server option" where
  "run s [] = Some s"
| "run s (ev # evs) = (case step s ev of None \<Rightarrow> None | Some s' \<Rightarrow> run s' evs)"

text \<open>The calls of \<^verbatim>\<open>send\<close> of a run; a run that does not end makes none that is observed.\<close>

fun calls_of :: "outcome option \<Rightarrow> sends" where
  "calls_of None = []"
| "calls_of (Some (Returns s out)) = out"
| "calls_of (Some (Throws x s out)) = out"

text \<open>\<open>n\<close> further invocations of the close hook for the same handle, the calls of \<^verbatim>\<open>send\<close>
  accumulated.\<close>

fun close_again :: "nat \<Rightarrow> env \<Rightarrow> ws \<Rightarrow> outcome \<Rightarrow> outcome" where
  "close_again 0 e w r = r"
| "close_again (Suc n) e w (Returns s out) =
     (case on_close e s w of
        Returns s' out' \<Rightarrow> close_again n e w (Returns s' (out @ out'))
      | Throws x s' out' \<Rightarrow> Throws x s' (out @ out'))"
| "close_again (Suc n) e w (Throws x s out) = Throws x s out"

section \<open>Invariants of the reachable states\<close>

text \<open>Every party of the registry has between one and eight members.\<close>

definition inv_size :: "server \<Rightarrow> bool" where
  "inv_size s \<longleftrightarrow>
     (\<forall>c p. (c, p) \<in> set (parties s) \<longrightarrow>
        1 \<le> Map_size (pt_members p) \<and> Map_size (pt_members p) \<le> 8)"

text \<open>The lists that stand for the maps hold every key once.\<close>

definition inv_keys :: "server \<Rightarrow> bool" where
  "inv_keys s \<longleftrightarrow>
     distinct (map fst (parties s)) \<and> distinct (map fst (clients s)) \<and>
     (\<forall>c p. (c, p) \<in> set (parties s) \<longrightarrow> distinct (map fst (pt_members p)))"

text \<open>The two maps agree: a member entry of a party points to a player object that carries
  the entry's key and the party's code, and the connection of that object resolves to it.\<close>

definition inv_link :: "server \<Rightarrow> bool" where
  "inv_link s \<longleftrightarrow>
     (\<forall>w a. (w, a) \<in> set (clients s) \<longrightarrow> a < length (heap s) \<and> p_ws (heap s ! a) = w) \<and>
     (\<forall>c p i a. (c, p) \<in> set (parties s) \<longrightarrow> (i, a) \<in> set (pt_members p) \<longrightarrow>
        a < length (heap s) \<and> p_id (heap s ! a) = i \<and> p_partyCode (heap s ! a) = c \<and>
        Map_get (clients s) (p_ws (heap s ! a)) = Some a)"

text \<open>While the counter is exact, every member id is the rendering of a smaller number.\<close>

definition inv_ids :: "server \<Rightarrow> bool" where
  "inv_ids s \<longleftrightarrow>
     (nextId s < 2 ^ 53 \<longrightarrow>
        (\<forall>c p i a. (c, p) \<in> set (parties s) \<longrightarrow> (i, a) \<in> set (pt_members p) \<longrightarrow>
           (\<exists>k < nextId s. i = String_nat k)))"

section \<open>The conditions of the error replies\<close>

text \<open>The four conditions under which the specification has an \<open>error\<close> reply sent. A
  code that cannot be uppercased and trimmed (a truthy value that is not a string) is the
  key of no registry entry.\<close>

definition error_cases :: "env \<Rightarrow> server \<Rightarrow> ws \<Rightarrow> payload \<Rightarrow> bool" where
  "error_cases e s w raw =
     (case raw of
        Unparseable \<Rightarrow> False
      | Parsed msg \<Rightarrow>
          (get msg ''type'' = Some (JStr ''create'') \<and> Map_has (clients s) w) \<or>
          (get msg ''type'' = Some (JStr ''join'') \<and> Map_has (clients s) w) \<or>
          (get msg ''type'' = Some (JStr ''join'') \<and>
             (case norm_code e msg of None \<Rightarrow> True | Some c \<Rightarrow> \<not> Map_has (parties s) c)) \<or>
          (get msg ''type'' = Some (JStr ''join'') \<and>
             (case norm_code e msg of
                None \<Rightarrow> False
              | Some c \<Rightarrow>
                 (case Map_get (parties s) c of
                    None \<Rightarrow> False
                  | Some p \<Rightarrow> Map_size (pt_members p) \<ge> 8))))"

text \<open>The invalid inputs that the specification has dropped silently: an unparseable
  payload, a parsed value whose \<^verbatim>\<open>type\<close> is none of the five kinds (\<^verbatim>\<open>null\<close>, a number or a
  string among them: they have no kind at all), and a state, chat or event message from a
  handle that does not resolve or whose party is missing.\<close>

definition kinds :: "json option set" where
  "kinds = {Some (JStr ''create''), Some (JStr ''join''), Some (JStr ''state''),
            Some (JStr ''chat''), Some (JStr ''event'')}"

definition silent_cases :: "server \<Rightarrow> ws \<Rightarrow> payload \<Rightarrow> bool" where
  "silent_cases s w raw =
     (case raw of
        Unparseable \<Rightarrow> True
      | Parsed msg \<Rightarrow>
          (get msg ''type'' \<in> {Some (JStr ''state''), Some (JStr ''chat''), Some (JStr ''event'')} \<and>
           (case Map_get (clients s) w of
              None \<Rightarrow> True
            | Some a \<Rightarrow> \<not> Map_has (parties s) (p_partyCode (heap s ! a)))) \<or>
          get msg ''type'' \<notin> kinds)"

text \<open>The inputs on which an exception escapes the message handler before it has decided
  about a reply: the parsed payload \<^verbatim>\<open>null\<close>, on which \<^verbatim>\<open>msg.type\<close> throws, and a join from a
  handle that does not resolve whose code is truthy and not a string, on which
  \<^verbatim>\<open>.toUpperCase()\<close> throws.\<close>

definition uncaught_cases :: "env \<Rightarrow> server \<Rightarrow> ws \<Rightarrow> payload \<Rightarrow> bool" where
  "uncaught_cases e s w raw =
     (case raw of
        Unparseable \<Rightarrow> False
      | Parsed msg \<Rightarrow>
          msg = JNull \<or>
          (get msg ''type'' = Some (JStr ''join'') \<and> Map_get (clients s) w = None \<and>
           norm_code e msg = None))"

section \<open>A sample environment and sample runs\<close>

text \<open>An environment in which every socket is open and the draws are 0, 1, 2, ...; its
  string functions agree with the runtime on the strings used below.\<close>

definition sample_env :: env where
  "sample_env =
     \<lparr>Math_random = (\<lambda>k. k),
      readyState = (\<lambda>w. 1),
      toUpperCase =
        map (\<lambda>c. case map_of (zip ''abcdefghijklmnopqrstuvwxyz'' ''ABCDEFGHIJKLMNOPQRSTUVWXYZ'') c of
                   None \<Rightarrow> c | Some u \<Rightarrow> u),
      trim = (\<lambda>s. rev (dropWhile (\<lambda>c. c = CHR '' '') (rev (dropWhile (\<lambda>c. c = CHR '' '') s)))),
      StringToNumber = (\<lambda>s. if s = ''5'' then Fin 5 else NaN),
      NumberToString = (\<lambda>n. if n = Fin 5 then ''5'' else ''NaN'')\<rparr>"

definition create_msg :: json where
  "create_msg = JObj [(''type'', JStr ''create''), (''name'', JStr ''Ann'')]"

definition join_msg :: "jsstring \<Rightarrow> json" where
  "join_msg c = JObj [(''type'', JStr ''join''), (''name'', JStr ''Bob''), (''code'', JStr c)]"

definition chat_msg :: "json \<Rightarrow> json" where
  "chat_msg t = JObj [(''type'', JStr ''chat''), (''text'', t)]"

definition state_msg :: "(jsstring \<times> json) list \<Rightarrow> json" where
  "state_msg fs = JObj ((''type'', JStr ''state'') # fs)"

definition event_msg :: "(jsstring \<times> json) list \<Rightarrow> json" where
  "event_msg fs = JObj ((''type'', JStr ''event'') # fs)"

text \<open>The state after connection 1 has created a party (with code \<open>ABCD\<close> under the sample
  draws) and connections 2 to \<open>n\<close> have joined it.\<close>

definition sample_player :: "nat \<Rightarrow> player" where
  "sample_player i =
     \<lparr>p_id = String_nat i, p_name = JStr (if i = 1 then ''Ann'' else ''Bob''),
      p_color = COLORS ! (i mod 8), p_ws = i, p_partyCode = ''ABCD'', p_lastState = None\<rparr>"

definition sample_party :: "nat \<Rightarrow> party" where
  "sample_party n =
     \<lparr>pt_code = ''ABCD'', pt_members = map (\<lambda>i. (String_nat i, i - 1)) [1..<Suc n]\<rparr>"

definition sample_state :: "nat \<Rightarrow> server" where
  "sample_state n =
     \<lparr>parties = [(''ABCD'', sample_party n)],
      clients = map (\<lambda>i. (i, i - 1)) [1..<Suc n],
      nextId = Suc n,
      heap = map sample_player [1..<Suc n]\<rparr>"

text \<open>The state in which the join handler leaves the server when it has added the
  connection \<open>w\<close>, under the name \<open>name\<close>, to the party \<open>party\<close> found under \<open>code\<close>.\<close>

definition joined_state :: "server \<Rightarrow> ws \<Rightarrow> jsstring \<Rightarrow> party \<Rightarrow> json \<Rightarrow> server" where
  "joined_state s w code party name =
     s\<lparr>nextId := incr (nextId s),
       parties := Map_set (parties s) code
         (party\<lparr>pt_members :=
            Map_set (pt_members party) (String_nat (nextId s)) (length (heap s))\<rparr>),
       clients := Map_set (clients s) w (length (heap s)),
       heap := heap s @
         [\<lparr>p_id = String_nat (nextId s), p_name = name,
           p_color = new_color (s\<lparr>nextId := incr (nextId s)\<rparr>), p_ws = w,
           p_partyCode = code, p_lastState = None\<rparr>]\<rparr>"

text \<open>The \<^verbatim>\<open>parties\<close> map after the close handler has removed the player at address \<open>a\<close> from
  its party \<open>party\<close>: the party without the member, or no party when it was the last one.\<close>

definition closed_parties :: "server \<Rightarrow> addr \<Rightarrow> party \<Rightarrow> (jsstring \<times> party) list" where
  "closed_parties s a party =
     (let info = heap s ! a;
          party' = party\<lparr>pt_members := Map_delete (pt_members party) (p_id info)\<rparr>;
          ps = Map_set (parties s) (p_partyCode info) party'
      in if Map_size (pt_members party') = 0 then Map_delete ps (p_partyCode info) else ps)"

text \<open>While the counter is exact, every connection that resolves is a member of its party,
  under its own id, and that id is the rendering of a smaller number.\<close>

definition inv_member :: "server \<Rightarrow> bool" where
  "inv_member s \<longleftrightarrow>
     (nextId s < 2 ^ 53 \<longrightarrow>
        (\<forall>w a. (w, a) \<in> set (clients s) \<longrightarrow>
           (\<exists>k < nextId s. p_id (heap s ! a) = String_nat k) \<and>
           (\<exists>p. Map_get (parties s) (p_partyCode (heap s ! a)) = Some p \<and>
                (p_id (heap s ! a), a) \<in> set (pt_members p))))"

text \<open>The connection of a member entry, and the connections of the members of a party.\<close>

definition conn :: "server \<Rightarrow> jsstring \<times> addr \<Rightarrow> ws" where
  "conn s m = p_ws (heap s ! snd m)"

definition membership :: "server \<Rightarrow> party \<Rightarrow> ws set" where
  "membership s p = conn s ` set (pt_members p)"

text \<open>The coercion rule of the numeric state fields: the field \<open>v\<close> with default \<open>d\<close>
  becomes \<open>r\<close>, where \<open>r\<close> is the default when the field is absent, falsy or coerces under
  unary plus to NaN or to a zero, and the number the field coerces to otherwise: the number
  itself when the field is a number that is not falsy, 1 when it is \<^verbatim>\<open>true\<close>, and the value
  of a string that is the numeral of such a number.\<close>

definition coerces :: "env \<Rightarrow> json option \<Rightarrow> jsnum \<Rightarrow> jsnum \<Rightarrow> bool" where
  "coerces e v d r \<longleftrightarrow>
     (v = None \<longrightarrow> r = d) \<and>
     (\<not> truthy v \<longrightarrow> r = d) \<and>
     (ToNumber e v = Some NaN \<longrightarrow> r = d) \<and>
     (ToNumber e v = Some NegZero \<longrightarrow> r = d) \<and>
     (ToNumber e v = Some (Fin 0) \<longrightarrow> r = d) \<and>
     (\<forall>n. ToNumber e v = Some n \<longrightarrow> n \<noteq> NaN \<longrightarrow> n \<noteq> NegZero \<longrightarrow> n \<noteq> Fin 0 \<longrightarrow> r = n) \<and>
     (\<forall>n. v = Some (JNum n) \<longrightarrow> truthy v \<longrightarrow> r = n) \<and>
     (v = Some (JBool True) \<longrightarrow> r = Fin 1) \<and>
     (\<forall>t. v = Some (JStr t) \<longrightarrow> t \<noteq> [] \<longrightarrow> StringToNumber e t \<noteq> NaN \<longrightarrow>
        StringToNumber e t \<noteq> NegZero \<longrightarrow> StringToNumber e t \<noteq> Fin 0 \<longrightarrow>
        r = StringToNumber e t)"

text \<open>The state object built from \<^verbatim>\<open>{x: 5}\<close>.\<close>

definition sample_st :: state where
  "sample_st = \<lparr>st_x = Fin 5, st_y = Fin 0, st_z = Fin 0, st_yaw = Fin 0, st_pitch = Fin 0,
                 st_chap = Fin 1, st_anim = JStr ''idle''\<rparr>"

text \<open>A state message with a string that is no number, a number, a string that is a
  numeral and a negative chapter, and the state object built from it.\<close>

definition sample_st2 :: state where
  "sample_st2 = \<lparr>st_x = Fin 0, st_y = Fin 5, st_z = Fin 0, st_yaw = Fin 0, st_pitch = Fin 5,
                  st_chap = Fin (- 1), st_anim = JStr ''idle''\<rparr>"

definition sample_state_msg :: json where
  "sample_state_msg =
     state_msg [(''x'', JStr ''abc''), (''y'', JNum (Fin 5)), (''pitch'', JStr ''5''),
                (''chap'', JNum (Fin (- 1)))]"

text \<open>The name of every player that a connection resolves to can be printed (the log line of
  the create and join handlers has printed it); whether a value can be printed does not
  depend on how numbers print.\<close>

definition printable :: "json \<Rightarrow> bool" where
  "printable v \<longleftrightarrow> ToString (\<lambda>n. []) v \<noteq> None"

definition inv_names :: "server \<Rightarrow> bool" where
  "inv_names s \<longleftrightarrow>
     (\<forall>w a. (w, a) \<in> set (clients s) \<longrightarrow> printable (p_name (heap s ! a)))"

section \<open>Facts about the maps\<close>

lemma Map_get_set: "Map_get (Map_set m k v) k' = (if k' = k then Some v else Map_get m k')"
  by (induction m) (auto simp: Map_get_def)

lemma Map_has_get: "Map_has m k \<longleftrightarrow> Map_get m k \<noteq> None"
  by (simp add: Map_has_def Map_get_def map_of_eq_None_iff)

lemma Map_get_delete: "Map_get (Map_delete m k) k' = (if k' = k then None else Map_get m k')"
  by (induction m) (auto simp: Map_get_def Map_delete_def)

lemma Map_get_in: "Map_get m k = Some v \<Longrightarrow> (k, v) \<in> set m"
  by (simp add: Map_get_def map_of_SomeD)

lemma in_Map_get: "distinct (map fst m) \<Longrightarrow> (k, v) \<in> set m \<Longrightarrow> Map_get m k = Some v"
  by (simp add: Map_get_def)

lemma set_Map_set: "set (Map_set m k v) \<subseteq> insert (k, v) (set m)"
  by (induction m) (auto split: if_splits)

lemma Map_set_fresh: "\<not> Map_has m k \<Longrightarrow> Map_set m k v = m @ [(k, v)]"
  by (induction m) (auto simp: Map_has_def)

lemma map_fst_Map_set:
  "map fst (Map_set m k v) = (if Map_has m k then map fst m else map fst m @ [k])"
  by (induction m) (force simp: Map_has_def)+

lemma length_Map_set:
  "length (Map_set m k v) = (if Map_has m k then length m else Suc (length m))"
proof -
  have "length (map fst (Map_set m k v)) = (if Map_has m k then length m else Suc (length m))"
    unfolding map_fst_Map_set by simp
  then show ?thesis by simp
qed

lemma distinct_Map_set: "distinct (map fst m) \<Longrightarrow> distinct (map fst (Map_set m k v))"
  by (simp add: map_fst_Map_set Map_has_def)

lemma set_Map_delete: "set (Map_delete m k) = {kv \<in> set m. fst kv \<noteq> k}"
  by (auto simp: Map_delete_def)

lemma distinct_Map_delete: "distinct (map fst m) \<Longrightarrow> distinct (map fst (Map_delete m k))"
  by (simp add: Map_delete_def distinct_map_filter)

lemma length_Map_delete: "length (Map_delete m k) \<le> length m"
  by (simp add: Map_delete_def)

lemma while_has_exit:
  assumes "while_has e ps k c = Some c'"
  shows "\<not> Map_has ps c'"
  by (rule while_has.raw_induct [where P = "\<lambda>e ps k c c'. \<not> Map_has ps c'", OF _ assms])
     (auto split: if_splits)

section \<open>Evaluating the handlers\<close>

lemma String_nat_lt10: "n < 10 \<Longrightarrow> String_nat n = [digit_char n]"
  by (simp add: String_nat.simps)

lemma String_nat_ge10:
  "10 \<le> n \<Longrightarrow> String_nat n = String_nat (n div 10) @ [digit_char (n mod 10)]"
  by (subst String_nat.simps) simp

lemmas handler_defs = on_message_def create_handler_def join_handler_def state_handler_def
  chat_handler_def event_handler_def on_close_def pick_name_def norm_code_def new_color_def
  existing_of_def broadcast_def state_of_def num_or_def str_num_def incr_def genCode_def
  genName_def Map_get_def Map_has_def Map_delete_def Map_size_def Let_def

lemmas sample_defs = sample_env_def create_msg_def join_msg_def chat_msg_def state_msg_def
  event_msg_def sample_state_def sample_party_def sample_player_def init_def COLORS_def chars_def
  ADJECTIVES_def NOUNS_def digit_char_def String_nat_lt10 String_nat_ge10 upt_conv_Cons

lemma sample_create:
  "on_message sample_env init 1 (Parsed create_msg) =
     Some (Returns (sample_state 1) [(1, Welcome ''1'' ''ABCD'' [] ''#44aaff'')])"
  by (simp add: handler_defs sample_defs while_has.simps)

lemma sample_join:
  assumes "k \<in> {1, 2, 3, 4, 5, 6, 7}"
  shows "\<exists>out. on_message sample_env (sample_state k) (Suc k) (Parsed (join_msg ''abcd '')) =
           Some (Returns (sample_state (Suc k)) out)"
  using assms by (elim insertE emptyE) (simp_all add: handler_defs sample_defs)

lemma reachable_sample: "1 \<le> n \<Longrightarrow> n \<le> 8 \<Longrightarrow> reachable (sample_state n)"
proof (induction n)
  case 0
  then show ?case by simp
next
  case (Suc n)
  show ?case
  proof (cases "n = 0")
    case True
    then show ?thesis
      using reachable.message [OF reachable.start sample_create] by simp
  next
    case False
    with Suc.prems have "n \<in> {1, 2, 3, 4, 5, 6, 7}" by auto
    from sample_join [OF this] obtain out where
      "on_message sample_env (sample_state n) (Suc n) (Parsed (join_msg ''abcd '')) =
         Some (Returns (sample_state (Suc n)) out)" ..
    moreover have "reachable (sample_state n)"
      using Suc False by simp
    ultimately show ?thesis by (rule reachable.message [rotated])
  qed
qed

section \<open>Dispatch on the message kind\<close>

lemma get_type_not_null: "get msg k = Some v \<Longrightarrow> msg \<noteq> JNull"
  by auto

lemma on_message_create:
  assumes "get msg ''type'' = Some (JStr ''create'')"
  shows "on_message e s w (Parsed msg) =
           (case Map_get (clients s) w of
              Some a \<Rightarrow> Some (Returns s [(w, Error ''Already in a party.'')])
            | None \<Rightarrow> create_handler e s w msg)"
  using assms get_type_not_null [OF assms] by (simp add: on_message_def)

lemma on_message_join:
  assumes "get msg ''type'' = Some (JStr ''join'')"
  shows "on_message e s w (Parsed msg) =
           (case Map_get (clients s) w of
              Some a \<Rightarrow> Some (Returns s [(w, Error ''Already in a party.'')])
            | None \<Rightarrow> Some (join_handler e s w msg))"
  using assms get_type_not_null [OF assms] by (simp add: on_message_def)

lemma on_message_state:
  assumes "get msg ''type'' = Some (JStr ''state'')"
  shows "on_message e s w (Parsed msg) =
           (case Map_get (clients s) w of
              None \<Rightarrow> Some (Returns s [])
            | Some a \<Rightarrow> Some (state_handler e s a msg))"
  using assms get_type_not_null [OF assms] by (simp add: on_message_def)

lemma on_message_chat:
  assumes "get msg ''type'' = Some (JStr ''chat'')"
  shows "on_message e s w (Parsed msg) =
           (case Map_get (clients s) w of
              None \<Rightarrow> Some (Returns s [])
            | Some a \<Rightarrow> Some (chat_handler e s w a msg))"
  using assms get_type_not_null [OF assms] by (simp add: on_message_def)

lemma on_message_event:
  assumes "get msg ''type'' = Some (JStr ''event'')"
  shows "on_message e s w (Parsed msg) =
           (case Map_get (clients s) w of
              None \<Rightarrow> Some (Returns s [])
            | Some a \<Rightarrow> Some (event_handler e s a msg))"
  using assms get_type_not_null [OF assms] by (simp add: on_message_def)

lemma on_message_other:
  assumes "get msg ''type'' \<notin> kinds" and "msg \<noteq> JNull"
  shows "on_message e s w (Parsed msg) = Some (Returns s [])"
  using assms by (simp add: on_message_def kinds_def)

text \<open>What a returning run of the create handler does.\<close>

lemma create_handler_returns:
  assumes "create_handler e s w msg = Some (Returns s' out)"
  obtains name k code where
    "pick_name e msg = Some (name, k)"
    "while_has e (parties s) (k + 4) (genCode e k 4) = Some code"
    "ToString (NumberToString e) name \<noteq> None"
    "s' = s\<lparr>nextId := incr (nextId s),
            parties := Map_set (parties s) code
              \<lparr>pt_code = code, pt_members = [(String_nat (nextId s), length (heap s))]\<rparr>,
            clients := Map_set (clients s) w (length (heap s)),
            heap := heap s @
              [\<lparr>p_id = String_nat (nextId s), p_name = name,
                p_color = new_color (s\<lparr>nextId := incr (nextId s)\<rparr>), p_ws = w,
                p_partyCode = code, p_lastState = None\<rparr>]\<rparr>"
    "out = [(w, Welcome (String_nat (nextId s)) code []
                  (new_color (s\<lparr>nextId := incr (nextId s)\<rparr>)))]"
  using assms unfolding create_handler_def Let_def
  by (auto split: option.splits prod.splits)

text \<open>The runs of the join handler.\<close>

lemma join_handler_badcode:
  "norm_code e msg = None \<Longrightarrow> join_handler e s w msg = Throws TypeError s []"
  by (simp add: join_handler_def)

lemma join_handler_notfound:
  "norm_code e msg = Some code \<Longrightarrow> Map_get (parties s) code = None \<Longrightarrow>
   join_handler e s w msg = Returns s [(w, Error (''Party \"'' @ code @ ''\" not found.''))]"
  by (simp add: join_handler_def)

lemma join_handler_full:
  "norm_code e msg = Some code \<Longrightarrow> Map_get (parties s) code = Some party \<Longrightarrow>
   Map_size (pt_members party) \<ge> 8 \<Longrightarrow>
   join_handler e s w msg = Returns s [(w, Error ''Party is full (max 8).'')]"
  by (simp add: join_handler_def)

lemma join_handler_badname:
  "norm_code e msg = Some code \<Longrightarrow> Map_get (parties s) code = Some party \<Longrightarrow>
   Map_size (pt_members party) < 8 \<Longrightarrow> pick_name e msg = None \<Longrightarrow>
   join_handler e s w msg = Throws TypeError (s\<lparr>nextId := incr (nextId s)\<rparr>) []"
  by (simp add: join_handler_def Let_def)

lemma join_handler_unprintable:
  "norm_code e msg = Some code \<Longrightarrow> Map_get (parties s) code = Some party \<Longrightarrow>
   Map_size (pt_members party) < 8 \<Longrightarrow> pick_name e msg = Some (name, k) \<Longrightarrow>
   ToString (NumberToString e) name = None \<Longrightarrow>
   join_handler e s w msg = Throws TypeError (joined_state s w code party name) []"
  by (simp add: join_handler_def Let_def joined_state_def)

lemma join_handler_joined:
  "norm_code e msg = Some code \<Longrightarrow> Map_get (parties s) code = Some party \<Longrightarrow>
   Map_size (pt_members party) < 8 \<Longrightarrow> pick_name e msg = Some (name, k) \<Longrightarrow>
   ToString (NumberToString e) name = Some t \<Longrightarrow>
   join_handler e s w msg =
     Returns (joined_state s w code party name)
       ((w, Welcome (String_nat (nextId s)) code (existing_of (heap s) party)
              (new_color (s\<lparr>nextId := incr (nextId s)\<rparr>))) #
        broadcast (heap (joined_state s w code party name))
          (party\<lparr>pt_members :=
             Map_set (pt_members party) (String_nat (nextId s)) (length (heap s))\<rparr>)
          (Joined (String_nat (nextId s)) name (new_color (s\<lparr>nextId := incr (nextId s)\<rparr>)))
          (Some (String_nat (nextId s))))"
  by (simp add: join_handler_def Let_def joined_state_def)

lemma join_handler_returns:
  assumes "join_handler e s w msg = Returns s' out"
  obtains
    (notfound) code where
      "norm_code e msg = Some code" "Map_get (parties s) code = None" "s' = s"
      "out = [(w, Error (''Party \"'' @ code @ ''\" not found.''))]"
  | (full) code party where
      "norm_code e msg = Some code" "Map_get (parties s) code = Some party"
      "Map_size (pt_members party) \<ge> 8" "s' = s"
      "out = [(w, Error ''Party is full (max 8).'')]"
  | (joined) code party name k where
      "norm_code e msg = Some code" "Map_get (parties s) code = Some party"
      "Map_size (pt_members party) < 8" "pick_name e msg = Some (name, k)"
      "ToString (NumberToString e) name \<noteq> None"
      "s' = joined_state s w code party name"
      "out = (w, Welcome (String_nat (nextId s)) code (existing_of (heap s) party)
                   (new_color (s\<lparr>nextId := incr (nextId s)\<rparr>))) #
             broadcast (heap s')
               (party\<lparr>pt_members :=
                  Map_set (pt_members party) (String_nat (nextId s)) (length (heap s))\<rparr>)
               (Joined (String_nat (nextId s)) name (new_color (s\<lparr>nextId := incr (nextId s)\<rparr>)))
               (Some (String_nat (nextId s)))"
proof (cases "norm_code e msg")
  case None
  with assms show ?thesis by (simp add: join_handler_badcode)
next
  case (Some code)
  note code = this
  show ?thesis
  proof (cases "Map_get (parties s) code")
    case None
    show ?thesis
      by (rule notfound [OF code None])
         (use assms join_handler_notfound [OF code None, of w] in simp_all)
  next
    case (Some party)
    note party = this
    show ?thesis
    proof (cases "Map_size (pt_members party) \<ge> 8")
      case True
      show ?thesis
        by (rule full [OF code party True])
           (use assms join_handler_full [OF code party True, of w] in simp_all)
    next
      case False
      then have room: "Map_size (pt_members party) < 8" by simp
      show ?thesis
      proof (cases "pick_name e msg")
        case None
        with code party room assms show ?thesis by (simp add: join_handler_badname)
      next
        case (Some nk)
        then obtain name k where nk: "pick_name e msg = Some (name, k)" by (cases nk) auto
        show ?thesis
        proof (cases "ToString (NumberToString e) name")
          case None
          with code party room nk assms show ?thesis by (simp add: join_handler_unprintable)
        next
          case (Some t)
          then have printable: "ToString (NumberToString e) name \<noteq> None" by simp
          from assms have "Returns s' out = join_handler e s w msg" by simp
          then have s': "s' = joined_state s w code party name"
            and out: "out = (w, Welcome (String_nat (nextId s)) code (existing_of (heap s) party)
                   (new_color (s\<lparr>nextId := incr (nextId s)\<rparr>))) #
             broadcast (heap (joined_state s w code party name))
               (party\<lparr>pt_members :=
                  Map_set (pt_members party) (String_nat (nextId s)) (length (heap s))\<rparr>)
               (Joined (String_nat (nextId s)) name (new_color (s\<lparr>nextId := incr (nextId s)\<rparr>)))
               (Some (String_nat (nextId s)))"
            unfolding join_handler_joined [OF code party room nk Some, of w] by simp_all
          show ?thesis
            by (rule joined [OF code party room nk printable s']) (simp add: out s')
        qed
      qed
    qed
  qed
qed

lemma state_handler_returns:
  assumes "state_handler e s a msg = Returns s' out"
  obtains
    (noparty) "Map_get (parties s) (p_partyCode (heap s ! a)) = None" "s' = s" "out = []"
  | (stored) party st where
      "Map_get (parties s) (p_partyCode (heap s ! a)) = Some party"
      "state_of e msg = Some st"
      "s' = s\<lparr>heap := (heap s)[a := (heap s ! a)\<lparr>p_lastState := Some st\<rparr>]\<rparr>"
      "out = broadcast (heap s') party (State (p_id (heap s' ! a)) st) (Some (p_id (heap s' ! a)))"
  using assms unfolding state_handler_def Let_def
  by (auto split: option.splits)

lemma chat_handler_state: "chat_handler e s w a msg = Returns s' out \<Longrightarrow> s' = s"
  unfolding chat_handler_def Let_def by (auto split: option.splits)

lemma event_handler_state: "event_handler e s a msg = Returns s' out \<Longrightarrow> s' = s"
  unfolding event_handler_def Let_def by (auto split: option.splits)

text \<open>The message kinds, as cases.\<close>

lemma kind_cases:
  obtains (null) "msg = JNull"
  | (create) "get msg ''type'' = Some (JStr ''create'')"
  | (join) "get msg ''type'' = Some (JStr ''join'')"
  | (state) "get msg ''type'' = Some (JStr ''state'')"
  | (chat) "get msg ''type'' = Some (JStr ''chat'')"
  | (event) "get msg ''type'' = Some (JStr ''event'')"
  | (other) "msg \<noteq> JNull" "get msg ''type'' \<notin> kinds"
  unfolding kinds_def by blast

lemma new_color_exact:
  "n < 2 ^ 53 \<Longrightarrow> new_color (s\<lparr>nextId := incr n\<rparr>) = COLORS ! (n mod 8)"
  by (simp add: new_color_def incr_def COLORS_def)

text \<open>The runs of the close handler.\<close>

lemma on_close_returns:
  assumes "on_close e s w = Returns s' out"
  obtains
    (unresolved) "Map_get (clients s) w = None" "s' = s" "out = []"
  | (noparty) a where
      "Map_get (clients s) w = Some a"
      "Map_get (parties s) (p_partyCode (heap s ! a)) = None"
      "s' = s\<lparr>clients := Map_delete (clients s) w\<rparr>" "out = []"
  | (left) a party where
      "Map_get (clients s) w = Some a"
      "Map_get (parties s) (p_partyCode (heap s ! a)) = Some party"
      "s' = s\<lparr>parties := closed_parties s a party, clients := Map_delete (clients s) w\<rparr>"
      "out = broadcast (heap s)
               (party\<lparr>pt_members := Map_delete (pt_members party) (p_id (heap s ! a))\<rparr>)
               (Left (p_id (heap s ! a))) None"
proof (cases "Map_get (clients s) w")
  case None
  with assms have "Returns s' out = Returns s []" by (simp add: on_close_def)
  then show ?thesis using None by (intro unresolved) simp_all
next
  case (Some a)
  note a = this
  show ?thesis
  proof (cases "Map_get (parties s) (p_partyCode (heap s ! a))")
    case None
    with assms a have "Returns s' out = Returns (s\<lparr>clients := Map_delete (clients s) w\<rparr>) []"
      by (simp add: on_close_def Let_def)
    then show ?thesis using a None by (intro noparty) simp_all
  next
    case (Some party)
    with assms a have
      "Returns s' out =
         Returns (s\<lparr>parties := closed_parties s a party, clients := Map_delete (clients s) w\<rparr>)
           (broadcast (heap s)
               (party\<lparr>pt_members := Map_delete (pt_members party) (p_id (heap s ! a))\<rparr>)
               (Left (p_id (heap s ! a))) None)"
      by (simp add: on_close_def Let_def closed_parties_def split: option.splits if_splits)
    then show ?thesis using a Some by (intro left) simp_all
  qed
qed

text \<open>The handlers that change the registry, by what they do to it.\<close>

lemma on_message_returns:
  assumes "on_message e s w raw = Some (Returns s' out)"
  obtains
    (same) "s' = s"
  | (created) name code where
      "\<not> Map_has (parties s) code"
      "s' = s\<lparr>nextId := incr (nextId s),
            parties := Map_set (parties s) code
              \<lparr>pt_code = code, pt_members = [(String_nat (nextId s), length (heap s))]\<rparr>,
            clients := Map_set (clients s) w (length (heap s)),
            heap := heap s @
              [\<lparr>p_id = String_nat (nextId s), p_name = name,
                p_color = new_color (s\<lparr>nextId := incr (nextId s)\<rparr>), p_ws = w,
                p_partyCode = code, p_lastState = None\<rparr>]\<rparr>"
      "Map_get (clients s) w = None"
      "ToString (NumberToString e) name \<noteq> None"
  | (added) code party name where
      "Map_get (parties s) code = Some party" "Map_size (pt_members party) < 8"
      "s' = joined_state s w code party name" "Map_get (clients s) w = None"
      "ToString (NumberToString e) name \<noteq> None"
  | (updated) a st where
      "Map_get (clients s) w = Some a"
      "s' = s\<lparr>heap := (heap s)[a := (heap s ! a)\<lparr>p_lastState := Some st\<rparr>]\<rparr>"
proof (cases raw)
  case Unparseable
  with assms same show ?thesis by (simp add: on_message_def)
next
  case (Parsed msg)
  show ?thesis
  proof (cases msg rule: kind_cases)
    case null
    with assms Parsed show ?thesis by (simp add: on_message_def)
  next
    case create
    show ?thesis
    proof (cases "Map_get (clients s) w")
      case (Some a)
      with assms Parsed create same show ?thesis by (simp add: on_message_create)
    next
      case None
      with assms Parsed create have "create_handler e s w msg = Some (Returns s' out)"
        by (simp add: on_message_create)
      then show ?thesis
      proof (rule create_handler_returns)
        fix name k code
        assume "while_has e (parties s) (k + 4) (genCode e k 4) = Some code"
          and printable: "ToString (NumberToString e) name \<noteq> None"
          and s': "s' = s\<lparr>nextId := incr (nextId s),
            parties := Map_set (parties s) code
              \<lparr>pt_code = code, pt_members = [(String_nat (nextId s), length (heap s))]\<rparr>,
            clients := Map_set (clients s) w (length (heap s)),
            heap := heap s @
              [\<lparr>p_id = String_nat (nextId s), p_name = name,
                p_color = new_color (s\<lparr>nextId := incr (nextId s)\<rparr>), p_ws = w,
                p_partyCode = code, p_lastState = None\<rparr>]\<rparr>"
        from while_has_exit [OF this(1)] show ?thesis
          by (rule created) (fact s', fact None, fact printable)
      qed
    qed
  next
    case join
    show ?thesis
    proof (cases "Map_get (clients s) w")
      case (Some a)
      with assms Parsed join same show ?thesis by (simp add: on_message_join)
    next
      case None
      with assms Parsed join have "join_handler e s w msg = Returns s' out"
        by (simp add: on_message_join)
      then show ?thesis
      proof (cases rule: join_handler_returns)
        case (notfound code)
        then show ?thesis by (intro same)
      next
        case (full code party)
        then show ?thesis by (intro same)
      next
        case (joined code party name k)
        from joined(2,3,6) None joined(5) show ?thesis by (rule added)
      qed
    qed
  next
    case state
    show ?thesis
    proof (cases "Map_get (clients s) w")
      case None
      with assms Parsed state same show ?thesis by (simp add: on_message_state)
    next
      case (Some a)
      with assms Parsed state have "state_handler e s a msg = Returns s' out"
        by (simp add: on_message_state)
      then show ?thesis
      proof (cases rule: state_handler_returns)
        case noparty
        then show ?thesis by (intro same)
      next
        case (stored party st)
        from Some stored(3) show ?thesis by (rule updated)
      qed
    qed
  next
    case chat
    with assms Parsed have "s' = s"
      by (auto simp: on_message_chat split: option.splits dest: chat_handler_state)
    then show ?thesis by (rule same)
  next
    case event
    with assms Parsed have "s' = s"
      by (auto simp: on_message_event split: option.splits dest: event_handler_state)
    then show ?thesis by (rule same)
  next
    case other
    with assms Parsed same show ?thesis by (simp add: on_message_other)
  qed
qed


section \<open>The party sizes\<close>

lemma Map_set_nonempty: "Map_set m k v \<noteq> []"
  by (induction m) (auto split: if_splits)

lemma inv_size_init: "inv_size init"
  by (simp add: inv_size_def init_def)

lemma inv_size_Map_set:
  assumes "inv_size s" and "1 \<le> Map_size (pt_members p)" and "Map_size (pt_members p) \<le> 8"
    and "parties s' = Map_set (parties s) c p"
  shows "inv_size s'"
  unfolding inv_size_def
proof (intro allI impI)
  fix c' p'
  assume "(c', p') \<in> set (parties s')"
  with assms(4) set_Map_set [of "parties s" c p]
  have "(c', p') = (c, p) \<or> (c', p') \<in> set (parties s)" by auto
  with assms(1-3) show "1 \<le> Map_size (pt_members p') \<and> Map_size (pt_members p') \<le> 8"
    by (auto simp: inv_size_def)
qed

lemma inv_size_closed:
  assumes "inv_size s" and "Map_get (parties s) (p_partyCode (heap s ! a)) = Some party"
    and "parties s' = closed_parties s a party"
  shows "inv_size s'"
  unfolding inv_size_def
proof (intro allI impI)
  fix c' p'
  assume in': "(c', p') \<in> set (parties s')"
  let ?c = "p_partyCode (heap s ! a)"
  let ?p = "party\<lparr>pt_members := Map_delete (pt_members party) (p_id (heap s ! a))\<rparr>"
  from assms(1,2) have old: "Map_size (pt_members party) \<le> 8"
    by (auto simp: inv_size_def dest: Map_get_in)
  have small: "Map_size (pt_members ?p) \<le> 8"
    using old length_Map_delete [of "pt_members party" "p_id (heap s ! a)"]
    by (simp add: Map_size_def)
  show "1 \<le> Map_size (pt_members p') \<and> Map_size (pt_members p') \<le> 8"
  proof (cases "Map_size (pt_members ?p) = 0")
    case True
    with in' assms(3) have "(c', p') \<in> set (Map_delete (Map_set (parties s) ?c ?p) ?c)"
      by (simp add: closed_parties_def Let_def)
    then have "(c', p') \<in> set (Map_set (parties s) ?c ?p)" and "c' \<noteq> ?c"
      by (auto simp: set_Map_delete)
    with set_Map_set [of "parties s" ?c ?p] have "(c', p') \<in> set (parties s)" by auto
    with assms(1) show ?thesis by (auto simp: inv_size_def)
  next
    case False
    with in' assms(3) have "(c', p') \<in> set (Map_set (parties s) ?c ?p)"
      by (simp add: closed_parties_def Let_def)
    with set_Map_set [of "parties s" ?c ?p]
    have "(c', p') = (?c, ?p) \<or> (c', p') \<in> set (parties s)" by auto
    with assms(1) False small show ?thesis by (auto simp: inv_size_def)
  qed
qed

lemma inv_size_message:
  assumes "inv_size s" and "on_message e s w raw = Some (Returns s' out)"
  shows "inv_size s'"
  using assms(2)
proof (cases rule: on_message_returns)
  case same
  with assms(1) show ?thesis by simp
next
  case (created name code)
  show ?thesis
    by (rule inv_size_Map_set [OF assms(1) _ _, where c = code and
          p = "\<lparr>pt_code = code, pt_members = [(String_nat (nextId s), length (heap s))]\<rparr>"])
       (simp_all add: created(2) Map_size_def)
next
  case (added code party name)
  let ?m = "Map_set (pt_members party) (String_nat (nextId s)) (length (heap s))"
  have "?m \<noteq> []" by (rule Map_set_nonempty)
  then have "1 \<le> length ?m" by (cases ?m) simp_all
  moreover have "length ?m \<le> 8"
    using added(2) by (simp add: length_Map_set Map_size_def)
  ultimately have "1 \<le> length ?m" "length ?m \<le> 8" by simp_all
  then show ?thesis
    by (intro inv_size_Map_set [OF assms(1), where c = code and p = "party\<lparr>pt_members := ?m\<rparr>"])
       (simp_all add: added(3) joined_state_def Map_size_def)
next
  case (updated a st)
  with assms(1) show ?thesis by (simp add: inv_size_def)
qed

lemma inv_size_close:
  assumes "inv_size s" and "on_close e s w = Returns s' out"
  shows "inv_size s'"
  using assms(2)
proof (cases rule: on_close_returns)
  case unresolved
  with assms(1) show ?thesis by simp
next
  case (noparty a)
  with assms(1) show ?thesis by (simp add: inv_size_def)
next
  case (left a party)
  show ?thesis
    by (rule inv_size_closed [OF assms(1) left(2)]) (simp add: left(3))
qed

section \<open>The keys of the maps\<close>

lemma inv_keys_init: "inv_keys init"
  by (simp add: inv_keys_def init_def)

lemma inv_keys_Map_set:
  assumes "inv_keys s" and "distinct (map fst (pt_members p))"
    and "parties s' = Map_set (parties s) c p"
    and "distinct (map fst (clients s'))"
  shows "inv_keys s'"
  unfolding inv_keys_def
proof (intro conjI allI impI)
  show "distinct (map fst (parties s'))"
    using assms(1,3) by (simp add: inv_keys_def distinct_Map_set)
  show "distinct (map fst (clients s'))" by fact
  fix c' p'
  assume "(c', p') \<in> set (parties s')"
  with assms(3) set_Map_set [of "parties s" c p]
  have "(c', p') = (c, p) \<or> (c', p') \<in> set (parties s)" by auto
  with assms(1,2) show "distinct (map fst (pt_members p'))"
    by (auto simp: inv_keys_def)
qed

lemma inv_keys_closed:
  assumes "inv_keys s" and "Map_get (parties s) (p_partyCode (heap s ! a)) = Some party"
    and "parties s' = closed_parties s a party"
    and "clients s' = Map_delete (clients s) w"
  shows "inv_keys s'"
proof -
  let ?c = "p_partyCode (heap s ! a)"
  let ?p = "party\<lparr>pt_members := Map_delete (pt_members party) (p_id (heap s ! a))\<rparr>"
  from assms(1,2) have "distinct (map fst (pt_members party))"
    by (auto simp: inv_keys_def dest: Map_get_in)
  then have dp: "distinct (map fst (pt_members ?p))"
    by (simp add: distinct_Map_delete)
  have sub: "set (parties s') \<subseteq> insert (?c, ?p) (set (parties s))"
    using set_Map_set [of "parties s" ?c ?p]
    by (auto simp: assms(3) closed_parties_def Let_def set_Map_delete)
  show ?thesis
    unfolding inv_keys_def
  proof (intro conjI allI impI)
    show "distinct (map fst (parties s'))"
      using assms(1)
      by (simp add: assms(3) closed_parties_def Let_def inv_keys_def distinct_Map_set
            distinct_Map_delete)
    show "distinct (map fst (clients s'))"
      using assms(1) by (simp add: assms(4) inv_keys_def distinct_Map_delete)
    fix c' p'
    assume "(c', p') \<in> set (parties s')"
    with sub have "(c', p') = (?c, ?p) \<or> (c', p') \<in> set (parties s)" by auto
    with assms(1) dp show "distinct (map fst (pt_members p'))"
      by (auto simp: inv_keys_def)
  qed
qed

lemma inv_keys_message:
  assumes "inv_keys s" and "on_message e s w raw = Some (Returns s' out)"
  shows "inv_keys s'"
  using assms(2)
proof (cases rule: on_message_returns)
  case same
  with assms(1) show ?thesis by simp
next
  case (created name code)
  show ?thesis
    by (rule inv_keys_Map_set [OF assms(1), where c = code and
          p = "\<lparr>pt_code = code, pt_members = [(String_nat (nextId s), length (heap s))]\<rparr>"])
       (use assms(1) in \<open>simp_all add: created(2) inv_keys_def distinct_Map_set\<close>)
next
  case (added code party name)
  from assms(1) added(1) have "distinct (map fst (pt_members party))"
    by (auto simp: inv_keys_def dest: Map_get_in)
  then show ?thesis
    by (intro inv_keys_Map_set [OF assms(1), where c = code and
          p = "party\<lparr>pt_members :=
                 Map_set (pt_members party) (String_nat (nextId s)) (length (heap s))\<rparr>"])
       (use assms(1) in \<open>simp_all add: added(3) joined_state_def inv_keys_def distinct_Map_set\<close>)
next
  case (updated a st)
  with assms(1) show ?thesis by (simp add: inv_keys_def)
qed

lemma inv_keys_close:
  assumes "inv_keys s" and "on_close e s w = Returns s' out"
  shows "inv_keys s'"
  using assms(2)
proof (cases rule: on_close_returns)
  case unresolved
  with assms(1) show ?thesis by simp
next
  case (noparty a)
  with assms(1) show ?thesis by (simp add: inv_keys_def distinct_Map_delete)
next
  case (left a party)
  show ?thesis
    by (rule inv_keys_closed [OF assms(1) left(2), where w = w]) (simp_all add: left(3))
qed

lemma reachable_inv_size: "reachable s \<Longrightarrow> inv_size s"
  by (induction rule: reachable.induct)
     (auto intro: inv_size_init inv_size_message inv_size_close)

lemma reachable_inv_keys: "reachable s \<Longrightarrow> inv_keys s"
  by (induction rule: reachable.induct)
     (auto intro: inv_keys_init inv_keys_message inv_keys_close)

section \<open>The calls of send\<close>

lemma broadcast_no_error: "obj \<noteq> Error m \<Longrightarrow> (w', Error m) \<notin> set (broadcast h p obj x)"
  by (auto simp: broadcast_def)

lemma create_handler_no_error: "(w', Error m) \<notin> set (calls_of (create_handler e s w msg))"
  by (auto simp: create_handler_def Let_def split: option.splits prod.splits)

lemma state_handler_no_error: "(w', Error m) \<notin> set (calls_of (Some (state_handler e s a msg)))"
  by (auto simp: state_handler_def Let_def broadcast_def split: option.splits)

lemma chat_handler_no_error: "(w', Error m) \<notin> set (calls_of (Some (chat_handler e s w a msg)))"
  by (auto simp: chat_handler_def Let_def broadcast_def split: option.splits)

lemma event_handler_no_error: "(w', Error m) \<notin> set (calls_of (Some (event_handler e s a msg)))"
  by (auto simp: event_handler_def Let_def broadcast_def split: option.splits)

lemma join_handler_error:
  "(\<exists>m. (w', Error m) \<in> set (calls_of (Some (join_handler e s w msg)))) \<longleftrightarrow>
     w' = w \<and>
     (case norm_code e msg of
        None \<Rightarrow> False
      | Some c \<Rightarrow>
         (case Map_get (parties s) c of
            None \<Rightarrow> True
          | Some p \<Rightarrow> Map_size (pt_members p) \<ge> 8))"
proof (cases "norm_code e msg")
  case None
  then show ?thesis by (simp add: join_handler_badcode)
next
  case (Some code)
  note code = this
  show ?thesis
  proof (cases "Map_get (parties s) code")
    case None
    with code show ?thesis by (auto simp: join_handler_notfound)
  next
    case (Some party)
    note party = this
    show ?thesis
    proof (cases "Map_size (pt_members party) \<ge> 8")
      case True
      with code party show ?thesis by (auto simp: join_handler_full)
    next
      case False
      then have room: "Map_size (pt_members party) < 8" by simp
      show ?thesis
      proof (cases "pick_name e msg")
        case None
        with code party room show ?thesis by (simp add: join_handler_badname)
      next
        case (Some nk)
        then obtain name k where nk: "pick_name e msg = Some (name, k)" by (cases nk) auto
        show ?thesis
        proof (cases "ToString (NumberToString e) name")
          case None
          with code party room nk show ?thesis by (simp add: join_handler_unprintable)
        next
          case (Some t)
          with code party room nk show ?thesis
            by (simp add: join_handler_joined broadcast_no_error)
        qed
      qed
    qed
  qed
qed

lemma chat_handler_calls:
  assumes "Map_get (parties s) (p_partyCode (heap s ! a)) = Some party"
    and "ToString (NumberToString e) (or_else (get msg ''text'') (JStr [])) = Some t"
  shows "chat_handler e s w a msg =
           Returns s
             (broadcast (heap s) party
                (Chat (p_id (heap s ! a)) (p_name (heap s ! a)) (take 120 t)) None @
              [(w, Chat (p_id (heap s ! a)) (p_name (heap s ! a)) (take 120 t))])"
  using assms by (simp add: chat_handler_def Let_def)

lemma chat_text_absent:
  "\<not> truthy (get msg ''text'') \<Longrightarrow>
   ToString n2s (or_else (get msg ''text'') (JStr [])) = Some []"
  by (cases "get msg ''text''") simp_all

section \<open>The rendering of the ids\<close>

lemma of_char_digit_char: "d < 10 \<Longrightarrow> of_char (digit_char d) = 48 + d"
proof -
  assume "d < 10"
  then have "d \<in> {0, 1, 2, 3, 4, 5, 6, 7, 8, 9}" by auto
  then show ?thesis
    by (elim insertE emptyE) (simp_all add: digit_char_def)
qed

lemma digit_char_inj:
  assumes "a < 10" and "b < 10" and "digit_char a = digit_char b"
  shows "a = b"
proof -
  have "(of_char (digit_char a) :: nat) = of_char (digit_char b)" using assms(3) by simp
  with assms(1,2) show ?thesis by (simp add: of_char_digit_char)
qed

lemma String_nat_nonempty: "String_nat n \<noteq> []"
  by (subst String_nat.simps) simp

lemma String_nat_inj: "String_nat m = String_nat n \<Longrightarrow> m = n"
proof (induction m arbitrary: n rule: String_nat.induct)
  case (1 m)
  show ?case
  proof (cases "m < 10")
    case True
    note m = this
    show ?thesis
    proof (cases "n < 10")
      case True
      with m "1.prems" show ?thesis
        by (simp add: String_nat_lt10 digit_char_inj)
    next
      case False
      with m "1.prems" String_nat_nonempty [of "n div 10"] show ?thesis
        by (simp add: String_nat_lt10 String_nat_ge10)
    qed
  next
    case False
    note m = this
    show ?thesis
    proof (cases "n < 10")
      case True
      with m "1.prems" String_nat_nonempty [of "m div 10"] show ?thesis
        by (simp add: String_nat_lt10 String_nat_ge10)
    next
      case False
      with m "1.prems" have "String_nat (m div 10) = String_nat (n div 10)"
        and d: "digit_char (m mod 10) = digit_char (n mod 10)"
        by (simp_all add: String_nat_ge10)
      with "1.IH" m have "m div 10 = n div 10" by simp
      moreover from d have "m mod 10 = n mod 10"
        by (intro digit_char_inj) simp_all
      ultimately show ?thesis
        by (metis div_mult_mod_eq)
    qed
  qed
qed

section \<open>The member ids\<close>

lemma incr_ge: "n \<le> incr n"
  by (simp add: incr_def)

lemma incr_exact: "incr n < 2 ^ 53 \<Longrightarrow> n < 2 ^ 53 \<and> incr n = Suc n"
  by (simp add: incr_def split: if_splits)

lemma inv_ids_init: "inv_ids init"
  by (simp add: inv_ids_def init_def)

lemma in_Map_set_cases: "x \<in> set (Map_set m k v) \<Longrightarrow> x = (k, v) \<or> x \<in> set m"
  using set_Map_set [of m k v] by auto

lemma in_Map_delete: "x \<in> set (Map_delete m k) \<Longrightarrow> x \<in> set m"
  by (simp add: set_Map_delete)

lemma in_closed_parties:
  assumes "(c', p') \<in> set (closed_parties s a party)"
  shows "(c', p') = (p_partyCode (heap s ! a),
                     party\<lparr>pt_members := Map_delete (pt_members party) (p_id (heap s ! a))\<rparr>) \<or>
         (c', p') \<in> set (parties s)"
  using assms
  by (auto simp: closed_parties_def Let_def split: if_splits
        dest!: in_Map_delete in_Map_set_cases)

lemma inv_ids_message:
  assumes "inv_ids s" and "on_message e s w raw = Some (Returns s' out)"
  shows "inv_ids s'"
  using assms(2)
proof (cases rule: on_message_returns)
  case same
  with assms(1) show ?thesis by simp
next
  case (created name code)
  show ?thesis
    unfolding inv_ids_def
  proof (intro impI allI)
    fix c p i a
    assume lt: "nextId s' < 2 ^ 53" and cp: "(c, p) \<in> set (parties s')"
      and ia: "(i, a) \<in> set (pt_members p)"
    from lt created(2) have n: "nextId s < 2 ^ 53" "nextId s' = Suc (nextId s)"
      using incr_exact [of "nextId s"] by simp_all
    from cp created(2) have
      "(c, p) = (code, \<lparr>pt_code = code, pt_members = [(String_nat (nextId s), length (heap s))]\<rparr>) \<or>
       (c, p) \<in> set (parties s)"
      by (auto dest: in_Map_set_cases)
    then show "\<exists>k<nextId s'. i = String_nat k"
    proof
      assume "(c, p) = (code, \<lparr>pt_code = code, pt_members = [(String_nat (nextId s), length (heap s))]\<rparr>)"
      with ia n show ?thesis by auto
    next
      assume "(c, p) \<in> set (parties s)"
      with assms(1) n ia obtain k where "k < nextId s" "i = String_nat k"
        unfolding inv_ids_def by blast
      with n show ?thesis by (auto intro: less_SucI)
    qed
  qed
next
  case (added code party name)
  show ?thesis
    unfolding inv_ids_def
  proof (intro impI allI)
    fix c p i a
    assume lt: "nextId s' < 2 ^ 53" and cp: "(c, p) \<in> set (parties s')"
      and ia: "(i, a) \<in> set (pt_members p)"
    from lt added(3) have n: "nextId s < 2 ^ 53" "nextId s' = Suc (nextId s)"
      using incr_exact [of "nextId s"] by (simp_all add: joined_state_def)
    from added(1) have old: "(code, party) \<in> set (parties s)" by (rule Map_get_in)
    from cp added(3) have
      "(c, p) = (code, party\<lparr>pt_members :=
          Map_set (pt_members party) (String_nat (nextId s)) (length (heap s))\<rparr>) \<or>
       (c, p) \<in> set (parties s)"
      by (auto simp: joined_state_def dest: in_Map_set_cases)
    then show "\<exists>k<nextId s'. i = String_nat k"
    proof
      assume "(c, p) = (code, party\<lparr>pt_members :=
          Map_set (pt_members party) (String_nat (nextId s)) (length (heap s))\<rparr>)"
      with ia have "(i, a) = (String_nat (nextId s), length (heap s)) \<or> (i, a) \<in> set (pt_members party)"
        by (auto dest: in_Map_set_cases)
      then show ?thesis
      proof
        assume "(i, a) = (String_nat (nextId s), length (heap s))"
        with n show ?thesis by auto
      next
        assume "(i, a) \<in> set (pt_members party)"
        with assms(1) n old obtain k where "k < nextId s" "i = String_nat k"
          unfolding inv_ids_def by blast
        with n show ?thesis by (auto intro: less_SucI)
      qed
    next
      assume "(c, p) \<in> set (parties s)"
      with assms(1) n ia obtain k where "k < nextId s" "i = String_nat k"
        unfolding inv_ids_def by blast
      with n show ?thesis by (auto intro: less_SucI)
    qed
  qed
next
  case (updated a st)
  with assms(1) show ?thesis by (simp add: inv_ids_def)
qed

lemma inv_ids_close:
  assumes "inv_ids s" and "on_close e s w = Returns s' out"
  shows "inv_ids s'"
  using assms(2)
proof (cases rule: on_close_returns)
  case unresolved
  with assms(1) show ?thesis by simp
next
  case (noparty a)
  with assms(1) show ?thesis by (simp add: inv_ids_def)
next
  case (left a party)
  from left(2) have old: "(p_partyCode (heap s ! a), party) \<in> set (parties s)"
    by (rule Map_get_in)
  show ?thesis
    unfolding inv_ids_def
  proof (intro impI allI)
    fix c p i b
    assume lt: "nextId s' < 2 ^ 53" and cp: "(c, p) \<in> set (parties s')"
      and ia: "(i, b) \<in> set (pt_members p)"
    from lt left(3) have n: "nextId s < 2 ^ 53" "nextId s' = nextId s" by simp_all
    from cp left(3) have "(c, p) \<in> set (closed_parties s a party)" by simp
    from in_closed_parties [OF this]
    have "\<exists>c0 p0. (c0, p0) \<in> set (parties s) \<and> (i, b) \<in> set (pt_members p0)"
    proof
      assume "(c, p) = (p_partyCode (heap s ! a),
                 party\<lparr>pt_members := Map_delete (pt_members party) (p_id (heap s ! a))\<rparr>)"
      with ia have "(i, b) \<in> set (pt_members party)"
        by (auto dest: in_Map_delete)
      with old show ?thesis by blast
    next
      assume "(c, p) \<in> set (parties s)"
      with ia show ?thesis by blast
    qed
    then obtain c0 p0 where "(c0, p0) \<in> set (parties s)" "(i, b) \<in> set (pt_members p0)"
      by blast
    with assms(1) n(1) have "\<exists>k<nextId s. i = String_nat k"
      unfolding inv_ids_def by blast
    with n(2) show "\<exists>k<nextId s'. i = String_nat k" by simp
  qed
qed

lemma reachable_inv_ids: "reachable s \<Longrightarrow> inv_ids s"
  by (induction rule: reachable.induct)
     (auto intro: inv_ids_init inv_ids_message inv_ids_close)

lemma fresh_member_id:
  assumes "inv_ids s" and "nextId s < 2 ^ 53" and "(c, p) \<in> set (parties s)"
  shows "\<not> Map_has (pt_members p) (String_nat (nextId s))"
proof
  assume "Map_has (pt_members p) (String_nat (nextId s))"
  then obtain a where "(String_nat (nextId s), a) \<in> set (pt_members p)"
    by (auto simp: Map_has_def)
  with assms obtain k where "k < nextId s" "String_nat (nextId s) = String_nat k"
    unfolding inv_ids_def by blast
  then show False by (auto dest: String_nat_inj)
qed

section \<open>The link between the two maps\<close>

lemma Map_set_in: "(k, v) \<in> set (Map_set m k v)"
  by (induction m) (auto split: if_splits)

lemma Map_set_value:
  assumes "distinct (map fst m)" and "(k, v') \<in> set (Map_set m k v)"
  shows "v' = v"
  using distinct_Map_set [OF assms(1), of k v] assms(2) Map_set_in [of k v m]
  by (rule eq_key_imp_eq_value)

lemma in_set_Map_has: "(k, v) \<in> set m \<Longrightarrow> Map_has m k"
  by (force simp: Map_has_def)

lemma updated_fields:
  "p_ws ((h[a := (h ! a)\<lparr>p_lastState := x\<rparr>]) ! b) = p_ws (h ! b)"
  "p_id ((h[a := (h ! a)\<lparr>p_lastState := x\<rparr>]) ! b) = p_id (h ! b)"
  "p_name ((h[a := (h ! a)\<lparr>p_lastState := x\<rparr>]) ! b) = p_name (h ! b)"
  "p_partyCode ((h[a := (h ! a)\<lparr>p_lastState := x\<rparr>]) ! b) = p_partyCode (h ! b)"
proof -
  have "(h[a := (h ! a)\<lparr>p_lastState := x\<rparr>]) ! b =
          (if b = a \<and> a < length h then (h ! a)\<lparr>p_lastState := x\<rparr> else h ! b)"
    by (cases "a < length h") (auto simp: nth_list_update list_update_beyond)
  then show
    "p_ws ((h[a := (h ! a)\<lparr>p_lastState := x\<rparr>]) ! b) = p_ws (h ! b)"
    "p_id ((h[a := (h ! a)\<lparr>p_lastState := x\<rparr>]) ! b) = p_id (h ! b)"
    "p_name ((h[a := (h ! a)\<lparr>p_lastState := x\<rparr>]) ! b) = p_name (h ! b)"
    "p_partyCode ((h[a := (h ! a)\<lparr>p_lastState := x\<rparr>]) ! b) = p_partyCode (h ! b)"
    by simp_all
qed

lemma inv_link_init: "inv_link init"
  by (simp add: inv_link_def init_def)

lemma inv_link_add:
  assumes inv: "inv_link s" and unresolved: "Map_get (clients s) w = None"
    and heap: "heap s' = heap s @ [pl]"
    and pl: "p_ws pl = w" "p_id pl = pid" "p_partyCode pl = code"
    and clients: "clients s' = Map_set (clients s) w (length (heap s))"
    and parties: "parties s' = Map_set (parties s) code p'"
    and members: "\<And>i a. (i, a) \<in> set (pt_members p') \<Longrightarrow>
        (i, a) = (pid, length (heap s)) \<or>
        (\<exists>p. (code, p) \<in> set (parties s) \<and> (i, a) \<in> set (pt_members p))"
  shows "inv_link s'"
proof -
  have old: "a < length (heap s') \<and> p_id (heap s' ! a) = i \<and> p_partyCode (heap s' ! a) = c \<and>
             Map_get (clients s') (p_ws (heap s' ! a)) = Some a"
    if "(c, p) \<in> set (parties s)" "(i, a) \<in> set (pt_members p)" for c p i a
  proof -
    from inv that have a: "a < length (heap s)" and f: "p_id (heap s ! a) = i"
      "p_partyCode (heap s ! a) = c" and r: "Map_get (clients s) (p_ws (heap s ! a)) = Some a"
      unfolding inv_link_def by blast+
    from r unresolved have "p_ws (heap s ! a) \<noteq> w" by auto
    with a f r show ?thesis by (simp add: heap clients nth_append Map_get_set)
  qed
  have new: "length (heap s) < length (heap s') \<and> p_id (heap s' ! length (heap s)) = pid \<and>
             p_partyCode (heap s' ! length (heap s)) = code \<and>
             Map_get (clients s') (p_ws (heap s' ! length (heap s))) = Some (length (heap s))"
    by (simp add: heap clients pl Map_get_set)
  show ?thesis
    unfolding inv_link_def
  proof (rule conjI; intro allI impI)
    fix w0 a0
    assume "(w0, a0) \<in> set (clients s')"
    then have "(w0, a0) = (w, length (heap s)) \<or> (w0, a0) \<in> set (clients s)"
      unfolding clients by (rule in_Map_set_cases)
    then show "a0 < length (heap s') \<and> p_ws (heap s' ! a0) = w0"
    proof
      assume "(w0, a0) = (w, length (heap s))"
      then show ?thesis by (simp add: heap pl)
    next
      assume "(w0, a0) \<in> set (clients s)"
      with inv have "a0 < length (heap s)" "p_ws (heap s ! a0) = w0"
        unfolding inv_link_def by blast+
      then show ?thesis by (simp add: heap nth_append)
    qed
  next
    fix c p i a
    assume cp: "(c, p) \<in> set (parties s')" and ia: "(i, a) \<in> set (pt_members p)"
    from cp have "(c, p) = (code, p') \<or> (c, p) \<in> set (parties s)"
      unfolding parties by (rule in_Map_set_cases)
    then have "(i, a) = (pid, length (heap s)) \<and> c = code \<or>
               (\<exists>p0. (c, p0) \<in> set (parties s) \<and> (i, a) \<in> set (pt_members p0))"
      using ia members by blast
    then show "a < length (heap s') \<and> p_id (heap s' ! a) = i \<and>
               p_partyCode (heap s' ! a) = c \<and>
               Map_get (clients s') (p_ws (heap s' ! a)) = Some a"
      using old new by blast
  qed
qed

lemma inv_link_updated:
  assumes "inv_link s"
    and "s' = s\<lparr>heap := (heap s)[a := (heap s ! a)\<lparr>p_lastState := x\<rparr>]\<rparr>"
  shows "inv_link s'"
  using assms(1) unfolding inv_link_def assms(2) by (simp add: updated_fields)

lemma inv_link_message:
  assumes "inv_link s" and "on_message e s w raw = Some (Returns s' out)"
  shows "inv_link s'"
  using assms(2)
proof (cases rule: on_message_returns)
  case same
  with assms(1) show ?thesis by simp
next
  case (created name code)
  show ?thesis
    by (rule inv_link_add [OF assms(1) created(3), where code = code and
          pl = "\<lparr>p_id = String_nat (nextId s), p_name = name,
                 p_color = new_color (s\<lparr>nextId := incr (nextId s)\<rparr>), p_ws = w,
                 p_partyCode = code, p_lastState = None\<rparr>" and
          pid = "String_nat (nextId s)" and
          p' = "\<lparr>pt_code = code, pt_members = [(String_nat (nextId s), length (heap s))]\<rparr>"])
       (simp_all add: created(2))
next
  case (added code party name)
  from added(1) have old: "(code, party) \<in> set (parties s)" by (rule Map_get_in)
  show ?thesis
  proof (rule inv_link_add [OF assms(1) added(4), where code = code and
          pl = "\<lparr>p_id = String_nat (nextId s), p_name = name,
                 p_color = new_color (s\<lparr>nextId := incr (nextId s)\<rparr>), p_ws = w,
                 p_partyCode = code, p_lastState = None\<rparr>" and
          pid = "String_nat (nextId s)" and
          p' = "party\<lparr>pt_members :=
                  Map_set (pt_members party) (String_nat (nextId s)) (length (heap s))\<rparr>"])
    fix i a
    assume "(i, a) \<in> set (pt_members (party\<lparr>pt_members :=
                  Map_set (pt_members party) (String_nat (nextId s)) (length (heap s))\<rparr>))"
    then have "(i, a) = (String_nat (nextId s), length (heap s)) \<or> (i, a) \<in> set (pt_members party)"
      by (auto dest: in_Map_set_cases)
    with old show "(i, a) = (String_nat (nextId s), length (heap s)) \<or>
        (\<exists>p. (code, p) \<in> set (parties s) \<and> (i, a) \<in> set (pt_members p))"
      by blast
  qed (simp_all add: added(3) joined_state_def)
next
  case (updated a st)
  from assms(1) updated(2) show ?thesis by (rule inv_link_updated)
qed

lemma inv_link_close:
  assumes "inv_link s" and "inv_keys s" and "on_close e s w = Returns s' out"
  shows "inv_link s'"
  using assms(3)
proof (cases rule: on_close_returns)
  case unresolved
  with assms(1) show ?thesis by simp
next
  case (noparty a)
  show ?thesis
    unfolding inv_link_def
  proof (rule conjI; intro allI impI)
    fix w0 a0
    assume "(w0, a0) \<in> set (clients s')"
    with noparty(3) have "(w0, a0) \<in> set (clients s)" by (auto dest: in_Map_delete)
    with assms(1) noparty(3) show "a0 < length (heap s') \<and> p_ws (heap s' ! a0) = w0"
      unfolding inv_link_def by auto
  next
    fix c p i b
    assume cp: "(c, p) \<in> set (parties s')" and ib: "(i, b) \<in> set (pt_members p)"
    from cp noparty(3) have cp0: "(c, p) \<in> set (parties s)" by simp
    with assms(1) ib have b: "b < length (heap s)" "p_id (heap s ! b) = i"
      "p_partyCode (heap s ! b) = c" "Map_get (clients s) (p_ws (heap s ! b)) = Some b"
      unfolding inv_link_def by blast+
    have "p_ws (heap s ! b) \<noteq> w"
    proof
      assume "p_ws (heap s ! b) = w"
      with b(4) noparty(1) have "b = a" by simp
      with b(3) noparty(2) in_set_Map_has [OF cp0] show False
        by (simp add: Map_has_get)
    qed
    with b noparty(3) show "b < length (heap s') \<and> p_id (heap s' ! b) = i \<and>
        p_partyCode (heap s' ! b) = c \<and> Map_get (clients s') (p_ws (heap s' ! b)) = Some b"
      by (simp add: Map_get_delete)
  qed
next
  case (left a party)
  let ?c = "p_partyCode (heap s ! a)"
  let ?p = "party\<lparr>pt_members := Map_delete (pt_members party) (p_id (heap s ! a))\<rparr>"
  from left(2) have old: "(?c, party) \<in> set (parties s)" by (rule Map_get_in)
  from assms(2) have dk: "distinct (map fst (parties s))" by (simp add: inv_keys_def)
  show ?thesis
    unfolding inv_link_def
  proof (rule conjI; intro allI impI)
    fix w0 a0
    assume "(w0, a0) \<in> set (clients s')"
    with left(3) have "(w0, a0) \<in> set (clients s)" by (auto dest: in_Map_delete)
    with assms(1) left(3) show "a0 < length (heap s') \<and> p_ws (heap s' ! a0) = w0"
      unfolding inv_link_def by auto
  next
    fix c p i b
    assume cp: "(c, p) \<in> set (parties s')" and ib: "(i, b) \<in> set (pt_members p)"
    from cp left(3) have cp': "(c, p) \<in> set (closed_parties s a party)" by simp
    from in_closed_parties [OF cp'] have "\<exists>p0. (c, p0) \<in> set (parties s) \<and> (i, b) \<in> set (pt_members p0)"
    proof
      assume "(c, p) = (?c, ?p)"
      with ib have "(i, b) \<in> set (pt_members party)" by (auto dest: in_Map_delete)
      with old \<open>(c, p) = (?c, ?p)\<close> show ?thesis by blast
    next
      assume "(c, p) \<in> set (parties s)"
      with ib show ?thesis by blast
    qed
    with assms(1) have b: "b < length (heap s)" "p_id (heap s ! b) = i"
      "p_partyCode (heap s ! b) = c" "Map_get (clients s) (p_ws (heap s ! b)) = Some b"
      unfolding inv_link_def by blast+
    have "p_ws (heap s ! b) \<noteq> w"
    proof
      assume "p_ws (heap s ! b) = w"
      with b(4) left(1) have ba: "b = a" by simp
      with b have c: "c = ?c" and i: "i = p_id (heap s ! a)" by simp_all
      have "p = ?p"
      proof (cases "Map_size (pt_members ?p) = 0")
        case True
        with cp' c show ?thesis
          by (simp add: closed_parties_def Let_def set_Map_delete)
      next
        case False
        with cp' c have "(?c, p) \<in> set (Map_set (parties s) ?c ?p)"
          by (simp add: closed_parties_def Let_def)
        with dk show ?thesis by (rule Map_set_value)
      qed
      with ib i show False by (simp add: set_Map_delete)
    qed
    with b left(3) show "b < length (heap s') \<and> p_id (heap s' ! b) = i \<and>
        p_partyCode (heap s' ! b) = c \<and> Map_get (clients s') (p_ws (heap s' ! b)) = Some b"
      by (simp add: Map_get_delete)
  qed
qed

lemma reachable_inv_link: "reachable s \<Longrightarrow> inv_link s"
proof (induction rule: reachable.induct)
  case start
  show ?case by (rule inv_link_init)
next
  case (message s e w raw s' out)
  then show ?case by (auto intro: inv_link_message)
next
  case (close s e w s' out)
  from close(3) reachable_inv_keys [OF close(1)] close(2) show ?case
    by (rule inv_link_close)
qed

section \<open>The members of a party\<close>

lemma Map_set_keeps: "(k', v') \<in> set m \<Longrightarrow> k' \<noteq> k \<Longrightarrow> (k', v') \<in> set (Map_set m k v)"
  by (induction m) auto

lemma inv_member_init: "inv_member init"
  by (simp add: inv_member_def init_def)

lemma inv_member_message:
  assumes "inv_member s" and "inv_link s"
    and "on_message e s w raw = Some (Returns s' out)"
  shows "inv_member s'"
  using assms(3)
proof (cases rule: on_message_returns)
  case same
  with assms(1) show ?thesis by simp
next
  case (created name code)
  let ?a = "length (heap s)"
  let ?new = "\<lparr>pt_code = code, pt_members = [(String_nat (nextId s), ?a)]\<rparr>"
  show ?thesis
    unfolding inv_member_def
  proof (intro impI allI)
    fix w0 a0
    assume lt: "nextId s' < 2 ^ 53" and in': "(w0, a0) \<in> set (clients s')"
    from lt created(2) have n: "nextId s < 2 ^ 53" "nextId s' = Suc (nextId s)"
      using incr_exact [of "nextId s"] by simp_all
    from in' created(2) have "(w0, a0) = (w, ?a) \<or> (w0, a0) \<in> set (clients s)"
      by (auto dest: in_Map_set_cases)
    then show "(\<exists>k<nextId s'. p_id (heap s' ! a0) = String_nat k) \<and>
        (\<exists>p. Map_get (parties s') (p_partyCode (heap s' ! a0)) = Some p \<and>
             (p_id (heap s' ! a0), a0) \<in> set (pt_members p))"
    proof
      assume "(w0, a0) = (w, ?a)"
      with n created(2) show ?thesis by (auto simp: Map_get_set)
    next
      assume old: "(w0, a0) \<in> set (clients s)"
      with assms(2) have a0: "a0 < length (heap s)" unfolding inv_link_def by blast
      from assms(1) n(1) old obtain k p where k: "k < nextId s" "p_id (heap s ! a0) = String_nat k"
        and p: "Map_get (parties s) (p_partyCode (heap s ! a0)) = Some p"
          "(p_id (heap s ! a0), a0) \<in> set (pt_members p)"
        unfolding inv_member_def by blast
      from p(1) created(1) have "p_partyCode (heap s ! a0) \<noteq> code"
        by (auto simp: Map_has_get)
      with a0 k p n created(2) show ?thesis
        by (auto simp: nth_append Map_get_set intro: less_SucI)
    qed
  qed
next
  case (added code party name)
  let ?a = "length (heap s)"
  let ?pid = "String_nat (nextId s)"
  let ?p = "party\<lparr>pt_members := Map_set (pt_members party) ?pid ?a\<rparr>"
  show ?thesis
    unfolding inv_member_def
  proof (intro impI allI)
    fix w0 a0
    assume lt: "nextId s' < 2 ^ 53" and in': "(w0, a0) \<in> set (clients s')"
    from lt added(3) have n: "nextId s < 2 ^ 53" "nextId s' = Suc (nextId s)"
      using incr_exact [of "nextId s"] by (simp_all add: joined_state_def)
    from in' added(3) have "(w0, a0) = (w, ?a) \<or> (w0, a0) \<in> set (clients s)"
      by (auto simp: joined_state_def dest: in_Map_set_cases)
    then show "(\<exists>k<nextId s'. p_id (heap s' ! a0) = String_nat k) \<and>
        (\<exists>p. Map_get (parties s') (p_partyCode (heap s' ! a0)) = Some p \<and>
             (p_id (heap s' ! a0), a0) \<in> set (pt_members p))"
    proof
      assume "(w0, a0) = (w, ?a)"
      with n added(3) show ?thesis
        by (auto simp: joined_state_def Map_get_set Map_set_in)
    next
      assume old: "(w0, a0) \<in> set (clients s)"
      with assms(2) have a0: "a0 < length (heap s)" unfolding inv_link_def by blast
      from assms(1) n(1) old obtain k p where k: "k < nextId s" "p_id (heap s ! a0) = String_nat k"
        and p: "Map_get (parties s) (p_partyCode (heap s ! a0)) = Some p"
          "(p_id (heap s ! a0), a0) \<in> set (pt_members p)"
        unfolding inv_member_def by blast
      from k have ne: "p_id (heap s ! a0) \<noteq> ?pid"
        by (auto dest: String_nat_inj)
      have h: "heap s' ! a0 = heap s ! a0" "nextId s' = Suc (nextId s)"
        "parties s' = Map_set (parties s) code ?p"
        using a0 n by (simp_all add: added(3) joined_state_def nth_append)
      have "\<exists>p'. Map_get (parties s') (p_partyCode (heap s ! a0)) = Some p' \<and>
            (p_id (heap s ! a0), a0) \<in> set (pt_members p')"
      proof (cases "p_partyCode (heap s ! a0) = code")
        case True
        with p added(1) have "p = party" by simp
        with p(2) ne have "(p_id (heap s ! a0), a0) \<in> set (pt_members ?p)"
          by (simp add: Map_set_keeps)
        with True show ?thesis by (simp add: h Map_get_set)
      next
        case False
        with p show ?thesis by (simp add: h Map_get_set)
      qed
      with k show ?thesis by (auto simp: h intro: less_SucI)
    qed
  qed
next
  case (updated a st)
  from assms(1) show ?thesis
    unfolding inv_member_def updated(2) by (simp add: updated_fields)
qed

lemma Map_get_closed_other:
  "c \<noteq> p_partyCode (heap s ! a) \<Longrightarrow> Map_get (closed_parties s a party) c = Map_get (parties s) c"
  by (simp add: closed_parties_def Let_def Map_get_set Map_get_delete)

lemma inv_member_close:
  assumes "inv_member s" and "inv_link s" and "inv_keys s"
    and "on_close e s w = Returns s' out"
  shows "inv_member s'"
  using assms(4)
proof (cases rule: on_close_returns)
  case unresolved
  with assms(1) show ?thesis by simp
next
  case (noparty a)
  show ?thesis
    unfolding inv_member_def
  proof (intro impI allI)
    fix w0 a0
    assume lt: "nextId s' < 2 ^ 53" and in': "(w0, a0) \<in> set (clients s')"
    from in' noparty(3) have "(w0, a0) \<in> set (clients s)" by (auto dest: in_Map_delete)
    with assms(1) lt noparty(3)
    show "(\<exists>k<nextId s'. p_id (heap s' ! a0) = String_nat k) \<and>
        (\<exists>p. Map_get (parties s') (p_partyCode (heap s' ! a0)) = Some p \<and>
             (p_id (heap s' ! a0), a0) \<in> set (pt_members p))"
      unfolding inv_member_def by simp
  qed
next
  case (left a party)
  let ?c = "p_partyCode (heap s ! a)"
  let ?p = "party\<lparr>pt_members := Map_delete (pt_members party) (p_id (heap s ! a))\<rparr>"
  from left(1) have wa: "(w, a) \<in> set (clients s)" by (rule Map_get_in)
  from left(2) have old: "(?c, party) \<in> set (parties s)" by (rule Map_get_in)
  with assms(3) have dm: "distinct (map fst (pt_members party))"
    unfolding inv_keys_def by blast
  show ?thesis
    unfolding inv_member_def
  proof (intro impI allI)
    fix w0 a0
    assume lt: "nextId s' < 2 ^ 53" and in': "(w0, a0) \<in> set (clients s')"
    from lt left(3) have n: "nextId s < 2 ^ 53" by simp
    from in' left(3) have old0: "(w0, a0) \<in> set (clients s)" and w0: "w0 \<noteq> w"
      by (auto simp: set_Map_delete)
    from assms(1) n old0 obtain k p where k: "k < nextId s" "p_id (heap s ! a0) = String_nat k"
      and p: "Map_get (parties s) (p_partyCode (heap s ! a0)) = Some p"
        "(p_id (heap s ! a0), a0) \<in> set (pt_members p)"
      unfolding inv_member_def by blast
    have "\<exists>p'. Map_get (closed_parties s a party) (p_partyCode (heap s ! a0)) = Some p' \<and>
            (p_id (heap s ! a0), a0) \<in> set (pt_members p')"
    proof (cases "p_partyCode (heap s ! a0) = ?c")
      case False
      with p show ?thesis by (simp add: Map_get_closed_other)
    next
      case True
      with p left(2) have pp: "p = party" by simp
      from assms(2) old0 wa have "p_ws (heap s ! a0) = w0" "p_ws (heap s ! a) = w"
        unfolding inv_link_def by blast+
      with w0 have aa: "a0 \<noteq> a" by auto
      from assms(1) n wa left(2) have "(p_id (heap s ! a), a) \<in> set (pt_members party)"
        unfolding inv_member_def by fastforce
      with dm p(2) pp aa have "p_id (heap s ! a0) \<noteq> p_id (heap s ! a)"
        by (auto dest: eq_key_imp_eq_value)
      with p(2) pp have m: "(p_id (heap s ! a0), a0) \<in> set (pt_members ?p)"
        by (simp add: set_Map_delete)
      then have "Map_size (pt_members ?p) \<noteq> 0"
        by (auto simp: Map_size_def)
      then have "Map_get (closed_parties s a party) ?c = Some ?p"
        by (simp add: closed_parties_def Let_def Map_get_set)
      with m True show ?thesis by auto
    qed
    with k left(3)
    show "(\<exists>k<nextId s'. p_id (heap s' ! a0) = String_nat k) \<and>
        (\<exists>p. Map_get (parties s') (p_partyCode (heap s' ! a0)) = Some p \<and>
             (p_id (heap s' ! a0), a0) \<in> set (pt_members p))"
      by auto
  qed
qed

lemma reachable_inv_member: "reachable s \<Longrightarrow> inv_member s"
proof (induction rule: reachable.induct)
  case start
  show ?case by (rule inv_member_init)
next
  case (message s e w raw s' out)
  from message(3) reachable_inv_link [OF message(1)] message(2) show ?case
    by (rule inv_member_message)
next
  case (close s e w s' out)
  from close(3) reachable_inv_link [OF close(1)] reachable_inv_keys [OF close(1)] close(2)
  show ?case by (rule inv_member_close)
qed

section \<open>The recipients of a broadcast\<close>

lemma broadcast_recipients:
  "map fst (broadcast (heap s) p obj x) = map (conn s) (filter (\<lambda>m. Some (fst m) \<noteq> x) (pt_members p))"
  by (simp add: broadcast_def conn_def split_def)

lemma broadcast_objects: "c \<in> set (broadcast h p obj x) \<Longrightarrow> snd c = obj"
  by (auto simp: broadcast_def)

lemma broadcast_updated:
  "broadcast (h[a := (h ! a)\<lparr>p_lastState := v\<rparr>]) p obj x = broadcast h p obj x"
  by (simp add: broadcast_def updated_fields)

lemma state_handler_calls:
  assumes "Map_get (parties s) (p_partyCode (heap s ! a)) = Some party"
    and "state_of e msg = Some st"
  shows "state_handler e s a msg =
           Returns (s\<lparr>heap := (heap s)[a := (heap s ! a)\<lparr>p_lastState := Some st\<rparr>]\<rparr>)
             (broadcast (heap s) party (State (p_id (heap s ! a)) st) (Some (p_id (heap s ! a))))"
  using assms by (simp add: state_handler_def Let_def broadcast_updated updated_fields)

lemma state_handler_throws:
  assumes "Map_get (parties s) (p_partyCode (heap s ! a)) = Some party"
    and "state_of e msg = None"
  shows "state_handler e s a msg = Throws TypeError s []"
  using assms by (simp add: state_handler_def)

lemma event_handler_calls:
  assumes "Map_get (parties s) (p_partyCode (heap s ! a)) = Some party"
  shows "event_handler e s a msg =
           Returns s
             (broadcast (heap s) party
                (Event (p_id (heap s ! a)) (get msg ''ev'') (or_else (get msg ''data'') (JObj [])))
                (Some (p_id (heap s ! a))))"
  using assms by (simp add: event_handler_def Let_def)

text \<open>In a reachable state a connection determines the member entry.\<close>

lemma conn_member:
  assumes "inv_link s" and "(c, p) \<in> set (parties s)" and "m \<in> set (pt_members p)"
  shows "Map_get (clients s) (conn s m) = Some (snd m) \<and> p_id (heap s ! snd m) = fst m"
  using assms unfolding inv_link_def conn_def by (cases m) auto

lemma conn_inj:
  assumes "inv_link s" and "(c, p) \<in> set (parties s)"
  shows "inj_on (conn s) (set (pt_members p))"
proof (rule inj_onI)
  fix m m'
  assume m: "m \<in> set (pt_members p)" "m' \<in> set (pt_members p)" and eq: "conn s m = conn s m'"
  from conn_member [OF assms m(1)] conn_member [OF assms m(2)] eq
  have "snd m = snd m'" "fst m = fst m'" by auto
  then show "m = m'" by (simp add: prod_eq_iff)
qed

lemma sender_excluded:
  assumes "inv_link s" and "Map_get (clients s) w = Some a"
    and "(c, p) \<in> set (parties s)" and "m \<in> set (pt_members p)" and "conn s m = w"
  shows "fst m = p_id (heap s ! a)"
  using conn_member [OF assms(1,3,4)] assms(2,5) by auto

lemma only_sender_excluded:
  assumes "inv_link s" and "inv_keys s" and "inv_member s" and "nextId s < 2 ^ 53"
    and "Map_get (clients s) w = Some a"
    and "Map_get (parties s) (p_partyCode (heap s ! a)) = Some p"
    and "m \<in> set (pt_members p)" and "fst m = p_id (heap s ! a)"
  shows "conn s m = w"
proof -
  from assms(5) have wa: "(w, a) \<in> set (clients s)" by (rule Map_get_in)
  from assms(6) have cp: "(p_partyCode (heap s ! a), p) \<in> set (parties s)" by (rule Map_get_in)
  from assms(3,4,6) wa have "(p_id (heap s ! a), a) \<in> set (pt_members p)"
    unfolding inv_member_def by fastforce
  moreover from assms(2) cp have "distinct (map fst (pt_members p))"
    unfolding inv_keys_def by blast
  moreover have "m = (fst m, snd m)" by simp
  with assms(7,8) have "(p_id (heap s ! a), snd m) \<in> set (pt_members p)"
    by metis
  ultimately have "snd m = a" by (auto dest: eq_key_imp_eq_value)
  moreover from assms(1) wa have "p_ws (heap s ! a) = w" unfolding inv_link_def by blast
  ultimately show ?thesis by (simp add: conn_def)
qed

section \<open>The state object\<close>

lemma num_or_coerces:
  assumes "num_or e v d = Some r"
  shows "coerces e v d r"
proof -
  from assms obtain n where n: "ToNumber e v = Some n"
    and r: "r = (if n = NaN \<or> n = NegZero \<or> n = Fin 0 then d else n)"
    by (auto simp: num_or_def)
  have falsy: "r = d" if "\<not> truthy v"
  proof (cases v)
    case None
    with n r show ?thesis by simp
  next
    case (Some j)
    with that n r show ?thesis
      by (cases j) (auto simp: str_num_def split: if_splits)
  qed
  show ?thesis
    unfolding coerces_def
  proof (intro conjI impI allI)
    assume "v = None"
    with n r show "r = d" by simp
  next
    assume "\<not> truthy v"
    then show "r = d" by (rule falsy)
  next
    assume "ToNumber e v = Some NaN"
    with n r show "r = d" by simp
  next
    assume "ToNumber e v = Some NegZero"
    with n r show "r = d" by simp
  next
    assume "ToNumber e v = Some (Fin 0)"
    with n r show "r = d" by simp
  next
    fix m
    assume "ToNumber e v = Some m" "m \<noteq> NaN" "m \<noteq> NegZero" "m \<noteq> Fin 0"
    with n r show "r = m" by simp
  next
    fix m
    assume "v = Some (JNum m)" "truthy v"
    with n r show "r = m" by auto
  next
    assume "v = Some (JBool True)"
    with n r show "r = Fin 1" by auto
  next
    fix t
    assume "v = Some (JStr t)" "t \<noteq> []" "StringToNumber e t \<noteq> NaN"
      "StringToNumber e t \<noteq> NegZero" "StringToNumber e t \<noteq> Fin 0"
    with n r show "r = StringToNumber e t" by (auto simp: str_num_def)
  qed
qed

text \<open>The rule leaves no choice: when the field can be coerced, the result is the one the
  handler computes.\<close>

lemma coerces_exact:
  assumes "ToNumber e v = Some n"
  shows "coerces e v d r \<longleftrightarrow> r = (if n = NaN \<or> n = NegZero \<or> n = Fin 0 then d else n)"
proof
  assume c: "coerces e v d r"
  show "r = (if n = NaN \<or> n = NegZero \<or> n = Fin 0 then d else n)"
  proof (cases "n = NaN \<or> n = NegZero \<or> n = Fin 0")
    case True
    with c assms show ?thesis unfolding coerces_def by auto
  next
    case False
    with c assms have "r = n" unfolding coerces_def by blast
    with False show ?thesis by simp
  qed
next
  assume "r = (if n = NaN \<or> n = NegZero \<or> n = Fin 0 then d else n)"
  with assms have "num_or e v d = Some r" by (simp add: num_or_def)
  then show "coerces e v d r" by (rule num_or_coerces)
qed

lemma state_of_fields:
  assumes "state_of e msg = Some st"
  shows "num_or e (get msg ''x'') (Fin 0) = Some (st_x st)"
    and "num_or e (get msg ''y'') (Fin 0) = Some (st_y st)"
    and "num_or e (get msg ''z'') (Fin 0) = Some (st_z st)"
    and "num_or e (get msg ''yaw'') (Fin 0) = Some (st_yaw st)"
    and "num_or e (get msg ''pitch'') (Fin 0) = Some (st_pitch st)"
    and "num_or e (get msg ''chap'') (Fin 1) = Some (st_chap st)"
    and "st_anim st = or_else (get msg ''anim'') (JStr ''idle'')"
  using assms by (auto simp: state_of_def bind_eq_Some_conv)

lemma or_else_falsy: "\<not> truthy v \<Longrightarrow> or_else v d = d"
  by (cases v) simp_all

lemma or_else_truthy: "truthy (Some j) \<Longrightarrow> or_else (Some j) d = j"
  by simp

section \<open>The names that can be printed\<close>

lemma those_map_None: "those (map f xs) = None \<longleftrightarrow> (\<exists>x \<in> set xs. f x = None)"
  by (induction xs) (auto split: option.splits)

lemma ToString_None_cong: "ToString n2s v = None \<longleftrightarrow> ToString n2s' v = None"
proof (induction v)
  case (JArr vs)
  have "((if v = JNull then Some [] else ToString n2s v) = None) =
        ((if v = JNull then Some [] else ToString n2s' v) = None)" if "v \<in> set vs" for v
    using JArr [OF that] by simp
  then have "(\<exists>v \<in> set vs. (if v = JNull then Some [] else ToString n2s v) = None) =
             (\<exists>v \<in> set vs. (if v = JNull then Some [] else ToString n2s' v) = None)"
    by blast
  then show ?case by (simp add: those_map_None)
qed simp_all

lemma printableI: "ToString n2s v \<noteq> None \<Longrightarrow> printable v"
  unfolding printable_def using ToString_None_cong [of n2s v "\<lambda>n. []"] by simp

lemma printableD: "printable v \<Longrightarrow> \<exists>t. ToString n2s v = Some t"
  unfolding printable_def using ToString_None_cong [of n2s v "\<lambda>n. []"]
  by (cases "ToString n2s v") simp_all

lemma inv_names_init: "inv_names init"
  by (simp add: inv_names_def init_def)

lemma inv_names_add:
  assumes "inv_names s" and "inv_link s" and "printable name"
    and "clients s' = Map_set (clients s) w (length (heap s))"
    and "heap s' = heap s @ [pl]" and "p_name pl = name"
  shows "inv_names s'"
  unfolding inv_names_def
proof (intro allI impI)
  fix w0 a0
  assume "(w0, a0) \<in> set (clients s')"
  then have "(w0, a0) = (w, length (heap s)) \<or> (w0, a0) \<in> set (clients s)"
    unfolding assms(4) by (rule in_Map_set_cases)
  then show "printable (p_name (heap s' ! a0))"
  proof
    assume "(w0, a0) = (w, length (heap s))"
    with assms(3,5,6) show ?thesis by simp
  next
    assume old: "(w0, a0) \<in> set (clients s)"
    with assms(2) have "a0 < length (heap s)" unfolding inv_link_def by blast
    moreover from assms(1) old have "printable (p_name (heap s ! a0))"
      unfolding inv_names_def by blast
    ultimately show ?thesis by (simp add: assms(5) nth_append)
  qed
qed

lemma inv_names_message:
  assumes "inv_names s" and "inv_link s"
    and "on_message e s w raw = Some (Returns s' out)"
  shows "inv_names s'"
  using assms(3)
proof (cases rule: on_message_returns)
  case same
  with assms(1) show ?thesis by simp
next
  case (created name code)
  from created(4) have "printable name" by (rule printableI)
  with assms(1,2) show ?thesis
    by (rule inv_names_add) (simp add: created(2))+
next
  case (added code party name)
  from added(5) have "printable name" by (rule printableI)
  with assms(1,2) show ?thesis
    by (rule inv_names_add) (simp add: added(3) joined_state_def)+
next
  case (updated a st)
  from assms(1) show ?thesis
    unfolding inv_names_def updated(2) by (simp add: updated_fields)
qed

lemma inv_names_close:
  assumes "inv_names s" and "on_close e s w = Returns s' out"
  shows "inv_names s'"
  using assms(2)
proof (cases rule: on_close_returns)
  case unresolved
  with assms(1) show ?thesis by simp
next
  case (noparty a)
  with assms(1) show ?thesis
    unfolding inv_names_def by (auto dest: in_Map_delete)
next
  case (left a party)
  with assms(1) show ?thesis
    unfolding inv_names_def by (auto dest: in_Map_delete)
qed

lemma reachable_inv_names: "reachable s \<Longrightarrow> inv_names s"
proof (induction rule: reachable.induct)
  case start
  show ?case by (rule inv_names_init)
next
  case (message s e w raw s' out)
  from message(3) reachable_inv_link [OF message(1)] message(2) show ?case
    by (rule inv_names_message)
next
  case (close s e w s' out)
  from close(3) close(2) show ?case by (rule inv_names_close)
qed

text \<open>In a reachable state the close handler returns.\<close>

lemma on_close_total:
  assumes "reachable s"
  shows "\<exists>s' out. on_close e s w = Returns s' out"
proof (cases "Map_get (clients s) w")
  case None
  then show ?thesis by (simp add: on_close_def)
next
  case (Some a)
  then have "(w, a) \<in> set (clients s)" by (rule Map_get_in)
  with reachable_inv_names [OF assms] have "printable (p_name (heap s ! a))"
    unfolding inv_names_def by blast
  then obtain t where "ToString (NumberToString e) (p_name (heap s ! a)) = Some t"
    using printableD by blast
  with Some show ?thesis
    by (simp add: on_close_def Let_def split: option.splits)
qed

lemma left_broadcast:
  assumes "reachable s" and "on_close e s w = Returns s' out"
  shows "\<exists>i. (\<forall>c \<in> set out. snd c = Left i) \<and> distinct (map fst out)"
  using assms(2)
proof (cases rule: on_close_returns)
  case unresolved
  then show ?thesis by simp
next
  case (noparty a)
  then show ?thesis by simp
next
  case (left a party)
  let ?p = "party\<lparr>pt_members := Map_delete (pt_members party) (p_id (heap s ! a))\<rparr>"
  from left(2) have cp: "(p_partyCode (heap s ! a), party) \<in> set (parties s)"
    by (rule Map_get_in)
  with reachable_inv_keys [OF assms(1)] have "distinct (map fst (pt_members party))"
    unfolding inv_keys_def by blast
  then have "distinct (map fst (pt_members ?p))" by (simp add: distinct_Map_delete)
  then have d: "distinct (filter (\<lambda>m. Some (fst m) \<noteq> None) (pt_members ?p))"
    by (simp add: distinct_map)
  have "inj_on (conn s) (set (filter (\<lambda>m. Some (fst m) \<noteq> None) (pt_members ?p)))"
    by (rule inj_on_subset [OF conn_inj [OF reachable_inv_link [OF assms(1)] cp]])
       (auto dest: in_Map_delete)
  with d have "distinct (map fst out)"
    unfolding left(4) broadcast_recipients by (simp add: distinct_map)
  moreover have "\<forall>c \<in> set out. snd c = Left (p_id (heap s ! a))"
    unfolding left(4) by (auto dest: broadcast_objects)
  ultimately show ?thesis by blast
qed

section \<open>The claims\<close>

text \<open>
  Claim C9. The close hook is idempotent. In every reachable state the hook returns for
  every connection handle (it raises nothing); the calls of \<^verbatim>\<open>send\<close> it makes all carry one
  and the same \<open>left\<close> object, and no connection is called twice. Invoking the hook again for
  the same handle, in whatever environment, returns the same registry, makes no call of
  \<^verbatim>\<open>send\<close> and raises nothing; the same holds for any number \<open>n\<close> of further invocations, so
  the calls of all the invocations together are those of the first one.
\<close>

theorem close_idempotent:
  assumes "reachable s"
  shows "\<exists>s' out. on_close e s w = Returns s' out \<and>
           (\<exists>i. \<forall>c \<in> set out. snd c = Left i) \<and> distinct (map fst out) \<and>
           on_close e' s' w = Returns s' [] \<and>
           close_again n e' w (Returns s' out) = Returns s' out"
proof -
  from on_close_total [OF assms] obtain s' out where first: "on_close e s w = Returns s' out"
    by blast
  then have "Map_get (clients s') w = None"
    by (auto simp: on_close_def Let_def Map_get_delete split: option.splits if_splits)
  then have again: "on_close e' s' w = Returns s' []"
    by (simp add: on_close_def)
  have "close_again n e' w (Returns s' out) = Returns s' out"
    by (induction n) (simp_all add: again)
  with first again left_broadcast [OF assms first] show ?thesis by blast
qed

theorem close_idempotent_witness:
  "reachable (sample_state 2) \<and>
   on_close sample_env (sample_state 2) 2 =
     Returns ((sample_state 2)\<lparr>parties := parties (sample_state 1), clients := [(1, 0)]\<rparr>)
       [(1, Left ''2'')] \<and>
   on_close sample_env
     ((sample_state 2)\<lparr>parties := parties (sample_state 1), clients := [(1, 0)]\<rparr>) 2 =
     Returns ((sample_state 2)\<lparr>parties := parties (sample_state 1), clients := [(1, 0)]\<rparr>) [] \<and>
   close_again 3 sample_env 2
     (Returns ((sample_state 2)\<lparr>parties := parties (sample_state 1), clients := [(1, 0)]\<rparr>)
        [(1, Left ''2'')]) =
     Returns ((sample_state 2)\<lparr>parties := parties (sample_state 1), clients := [(1, 0)]\<rparr>)
       [(1, Left ''2'')]"
proof -
  have r: "reachable (sample_state 2)" by (rule reachable_sample) simp_all
  have first: "on_close sample_env (sample_state 2) 2 =
     Returns ((sample_state 2)\<lparr>parties := parties (sample_state 1), clients := [(1, 0)]\<rparr>)
       [(1, Left ''2'')]"
    by (simp add: handler_defs sample_defs)
  from close_idempotent [OF r, of sample_env 2 sample_env 3] r first show ?thesis by auto
qed

text \<open>
  Claim C4. When a create message is answered with a welcome message, the code in that
  message was not the key of any party when the handler ran (the loop regenerates codes
  until \<^verbatim>\<open>parties.has(code)\<close> is false), the new party is appended under that code, and
  exactly one entry of the resulting \<^verbatim>\<open>parties\<close> map has that code.
\<close>

theorem create_code_unique:
  assumes "on_message e s w (Parsed msg) = Some (Returns s' out)"
    and "get msg ''type'' = Some (JStr ''create'')"
    and "(w', Welcome pid code players color) \<in> set out"
  shows "\<not> Map_has (parties s) code \<and>
         parties s' =
           parties s @ [(code, \<lparr>pt_code = code, pt_members = [(pid, length (heap s))]\<rparr>)] \<and>
         length (filter (\<lambda>kv. fst kv = code) (parties s')) = 1"
proof -
  from assms have run: "create_handler e s w msg = Some (Returns s' out)"
    by (auto simp: on_message_create split: option.splits)
  from run obtain name k c where
    loop: "while_has e (parties s) (k + 4) (genCode e k 4) = Some c"
    and s': "parties s' = Map_set (parties s) c
               \<lparr>pt_code = c, pt_members = [(String_nat (nextId s), length (heap s))]\<rparr>"
    and out: "out = [(w, Welcome (String_nat (nextId s)) c []
                           (new_color (s\<lparr>nextId := incr (nextId s)\<rparr>)))]"
    by (rule create_handler_returns) simp
  from out assms(3) have eq: "code = c" "pid = String_nat (nextId s)" by auto
  from while_has_exit [OF loop] have fresh: "\<not> Map_has (parties s) c" .
  then have "filter (\<lambda>kv. fst kv = c) (parties s) = []"
    by (auto simp: Map_has_def filter_empty_conv)
  with fresh s' eq show ?thesis
    by (simp add: Map_set_fresh)
qed

text \<open>The witness: a create while the party \<open>ABCD\<close> exists. The first code drawn is
  \<open>ABCD\<close> again, the loop draws \<open>EFGH\<close>.\<close>

theorem create_code_unique_witness:
  "on_message sample_env (sample_state 1) 9 (Parsed create_msg) =
     Some (Returns
       ((sample_state 1)\<lparr>nextId := 3,
          parties := parties (sample_state 1) @
            [(''EFGH'', \<lparr>pt_code = ''EFGH'', pt_members = [(''2'', 1)]\<rparr>)],
          clients := [(1, 0), (9, 1)],
          heap := heap (sample_state 1) @
            [\<lparr>p_id = ''2'', p_name = JStr ''Ann'', p_color = ''#44ff88'', p_ws = 9,
              p_partyCode = ''EFGH'', p_lastState = None\<rparr>]\<rparr>)
       [(9, Welcome ''2'' ''EFGH'' [] ''#44ff88'')]) \<and>
   Map_has (parties (sample_state 1)) ''ABCD'' \<and>
   \<not> Map_has (parties (sample_state 1)) ''EFGH''"
proof -
  have run: "on_message sample_env (sample_state 1) 9 (Parsed create_msg) =
     Some (Returns
       ((sample_state 1)\<lparr>nextId := 3,
          parties := parties (sample_state 1) @
            [(''EFGH'', \<lparr>pt_code = ''EFGH'', pt_members = [(''2'', 1)]\<rparr>)],
          clients := [(1, 0), (9, 1)],
          heap := heap (sample_state 1) @
            [\<lparr>p_id = ''2'', p_name = JStr ''Ann'', p_color = ''#44ff88'', p_ws = 9,
              p_partyCode = ''EFGH'', p_lastState = None\<rparr>]\<rparr>)
       [(9, Welcome ''2'' ''EFGH'' [] ''#44ff88'')])"
    by (simp add: handler_defs sample_defs while_has.simps)
  have "get create_msg ''type'' = Some (JStr ''create'')"
    by (simp add: create_msg_def)
  from create_code_unique [OF run this, of 9 "''2''" "''EFGH''" "[]" "''#44ff88''"]
  have "\<not> Map_has (parties (sample_state 1)) ''EFGH''" by simp
  moreover have "Map_has (parties (sample_state 1)) ''ABCD''"
    by (simp add: Map_has_def sample_state_def sample_party_def)
  ultimately show ?thesis using run by simp
qed

text \<open>
  Claim C2, as amended. A message creates a member exactly when the connection, unresolved
  before, resolves afterwards (a create or a join that succeeds). The new player object
  carries the id \<open>String(n)\<close> where \<open>n\<close> is the counter before the run, and its color is
  \<^verbatim>\<open>COLORS[(nextId - 1) % 8]\<close> for the counter \<^emph>\<open>after\<close> the increment: while the counter is
  exact (\<open>n < 2^53\<close>) that is \<open>COLORS[n mod 8]\<close>, the round robin starting at the second
  color. The welcome message carries this id and this color.
\<close>

theorem member_color:
  assumes "on_message e s w (Parsed msg) = Some (Returns s' out)"
    and "Map_get (clients s) w = None"
    and "Map_get (clients s') w = Some a"
  shows "a = length (heap s) \<and> heap s' = heap s @ [heap s' ! a] \<and>
         p_id (heap s' ! a) = String_nat (nextId s) \<and>
         p_color (heap s' ! a) = COLORS ! ((nextId s' - 1) mod length COLORS) \<and>
         (nextId s < 2 ^ 53 \<longrightarrow> p_color (heap s' ! a) = COLORS ! (nextId s mod 8)) \<and>
         (\<exists>code players. hd out = (w, Welcome (p_id (heap s' ! a)) code players (p_color (heap s' ! a))))"
proof (cases msg rule: kind_cases)
  case null
  with assms show ?thesis by (simp add: on_message_def)
next
  case create
  with assms have "create_handler e s w msg = Some (Returns s' out)"
    by (simp add: on_message_create)
  then show ?thesis
  proof (rule create_handler_returns)
    fix name k code
    assume s': "s' = s\<lparr>nextId := incr (nextId s),
            parties := Map_set (parties s) code
              \<lparr>pt_code = code, pt_members = [(String_nat (nextId s), length (heap s))]\<rparr>,
            clients := Map_set (clients s) w (length (heap s)),
            heap := heap s @
              [\<lparr>p_id = String_nat (nextId s), p_name = name,
                p_color = new_color (s\<lparr>nextId := incr (nextId s)\<rparr>), p_ws = w,
                p_partyCode = code, p_lastState = None\<rparr>]\<rparr>"
      and out: "out = [(w, Welcome (String_nat (nextId s)) code []
                  (new_color (s\<lparr>nextId := incr (nextId s)\<rparr>)))]"
    from s' assms(3) have a: "a = length (heap s)" by (simp add: Map_get_set)
    with s' out show ?thesis
      by (simp add: new_color_exact) (simp add: new_color_def)
  qed
next
  case join
  with assms have "join_handler e s w msg = Returns s' out"
    by (simp add: on_message_join)
  then show ?thesis
  proof (cases rule: join_handler_returns)
    case (notfound code)
    with assms show ?thesis by simp
  next
    case (full code party)
    with assms show ?thesis by simp
  next
    case (joined code party name k)
    from joined(6) assms(3) have a: "a = length (heap s)"
      by (simp add: Map_get_set joined_state_def)
    with joined(6,7) show ?thesis
      by (simp add: new_color_exact joined_state_def) (simp add: new_color_def)
  qed
next
  case state
  with assms show ?thesis by (simp add: on_message_state)
next
  case chat
  with assms show ?thesis by (simp add: on_message_chat)
next
  case event
  with assms show ?thesis by (simp add: on_message_event)
next
  case other
  with assms show ?thesis by (simp add: on_message_other)
qed

text \<open>The witness: the eighth member, whose id is \<open>8\<close>, gets \<open>COLORS[0]\<close>.\<close>

theorem member_color_witness:
  "on_message sample_env (sample_state 7) 8 (Parsed (join_msg ''abcd '')) =
     Some (Returns (sample_state 8)
       ((8, Welcome ''8'' ''ABCD'' (existing_of (heap (sample_state 7)) (sample_party 7)) ''#ff4444'') #
        map (\<lambda>i. (i, Joined ''8'' (JStr ''Bob'') ''#ff4444'')) [1..<8])) \<and>
   p_id (heap (sample_state 8) ! 7) = ''8'' \<and>
   p_color (heap (sample_state 8) ! 7) = COLORS ! (8 mod 8) \<and>
   COLORS ! (8 mod 8) = ''#ff4444''"
proof -
  have run: "on_message sample_env (sample_state 7) 8 (Parsed (join_msg ''abcd '')) =
     Some (Returns (sample_state 8)
       ((8, Welcome ''8'' ''ABCD'' (existing_of (heap (sample_state 7)) (sample_party 7)) ''#ff4444'') #
        map (\<lambda>i. (i, Joined ''8'' (JStr ''Bob'') ''#ff4444'')) [1..<8]))"
    by (simp add: handler_defs sample_defs)
  have before: "Map_get (clients (sample_state 7)) 8 = None"
    by (simp add: handler_defs sample_defs)
  have after: "Map_get (clients (sample_state 8)) 8 = Some 7"
    by (simp add: handler_defs sample_defs)
  have "nextId (sample_state 7) = 8" "(8::nat) < 2 ^ 53"
    by (simp_all add: sample_state_def)
  with member_color [OF run before after] run show ?thesis
    by (simp add: sample_defs)
qed

text \<open>The claim as stated fails for the first member: its id is \<open>1\<close> and its color is
  \<open>COLORS[1]\<close>, not \<open>COLORS[(1 - 1) mod 8]\<close>.\<close>

theorem member_color_counterexample:
  "on_message sample_env init 1 (Parsed create_msg) =
     Some (Returns (sample_state 1) [(1, Welcome ''1'' ''ABCD'' [] ''#44aaff'')]) \<and>
   p_id (heap (sample_state 1) ! 0) = String_nat 1 \<and>
   p_color (heap (sample_state 1) ! 0) = ''#44aaff'' \<and>
   COLORS ! ((1 - 1) mod 8) = ''#ff4444'' \<and>
   p_color (heap (sample_state 1) ! 0) \<noteq> COLORS ! ((1 - 1) mod 8)"
  using sample_create by (simp add: sample_defs)

text \<open>
  Claim C1 (the code sends the chat message to the sender twice). In the party of the
  connections 1 and 2, a chat message from connection 1 makes three calls of \<^verbatim>\<open>send\<close>: the
  broadcast, which excludes nobody, reaches 1 and 2, and the echo reaches 1 again. With
  both sockets open, three frames are put on the wire, two of them on socket 1.
\<close>

theorem chat_sender_twice:
  "on_message sample_env (sample_state 2) 1 (Parsed (chat_msg (JStr ''hi''))) =
     Some (Returns (sample_state 2)
       [(1, Chat ''1'' (JStr ''Ann'') ''hi''), (2, Chat ''1'' (JStr ''Ann'') ''hi''),
        (1, Chat ''1'' (JStr ''Ann'') ''hi'')]) \<and>
   wire sample_env
       [(1, Chat ''1'' (JStr ''Ann'') ''hi''), (2, Chat ''1'' (JStr ''Ann'') ''hi''),
        (1, Chat ''1'' (JStr ''Ann'') ''hi'')] =
       [(1, Chat ''1'' (JStr ''Ann'') ''hi''), (2, Chat ''1'' (JStr ''Ann'') ''hi''),
        (1, Chat ''1'' (JStr ''Ann'') ''hi'')]"
  by (simp add: handler_defs sample_defs wire_def send_def)

text \<open>
  Claim C10 (the code drops a chat message whose text cannot be converted). A chat
  message whose \<^verbatim>\<open>text\<close> is the parsed object \<^verbatim>\<open>{"toString": 1}\<close> is not a string, and is not
  delivered: \<^verbatim>\<open>String(msg.text || '')\<close> throws a TypeError, no call of \<^verbatim>\<open>send\<close> is made.
\<close>

theorem chat_text_throws:
  "on_message sample_env (sample_state 2) 1
     (Parsed (chat_msg (JObj [(''toString'', JNum (Fin 1))]))) =
     Some (Throws TypeError (sample_state 2) [])"
  by (simp add: handler_defs sample_defs)

text \<open>
  Claim C3. In every state reached from the initial one by handler runs that return
  (create, join, state, chat, event and close, in any order, for any connections and any
  environment), every entry of the \<^verbatim>\<open>parties\<close> map has at least one and at most eight
  members, its keys are distinct (so the size counts members), and the map finds the
  entry under its code. A run is one step: the close handler deletes a party in the run
  that empties it, and the join handler refuses a ninth member.
\<close>

theorem party_size_invariant:
  assumes "reachable s" and "(c, p) \<in> set (parties s)"
  shows "1 \<le> Map_size (pt_members p) \<and> Map_size (pt_members p) \<le> 8 \<and>
         distinct (map fst (pt_members p)) \<and> Map_get (parties s) c = Some p"
  using reachable_inv_size [OF assms(1)] reachable_inv_keys [OF assms(1)] assms(2)
  by (auto simp: inv_size_def inv_keys_def intro: in_Map_get)

theorem party_size_invariant_witness:
  "reachable (sample_state 8) \<and>
   (''ABCD'', sample_party 8) \<in> set (parties (sample_state 8)) \<and>
   Map_size (pt_members (sample_party 8)) = 8 \<and>
   1 \<le> Map_size (pt_members (sample_party 8)) \<and>
   Map_size (pt_members (sample_party 8)) \<le> 8"
proof -
  have r: "reachable (sample_state 8)" by (rule reachable_sample) simp_all
  have m: "(''ABCD'', sample_party 8) \<in> set (parties (sample_state 8))"
    by (simp add: sample_state_def sample_party_def)
  have "Map_size (pt_members (sample_party 8)) = 8"
    by (simp add: sample_state_def sample_party_def Map_size_def)
  with party_size_invariant [OF r m] r m show ?thesis by simp
qed

text \<open>
  The rule of the error replies. Unless an exception escapes the handler on one of the
  inputs of \<open>uncaught_cases\<close>, a run of the message handler calls \<^verbatim>\<open>send\<close> with an \<open>error\<close>
  object exactly in the four cases of \<open>error_cases\<close>: a create, or a join, from a handle
  that resolves to a member; a join whose code, uppercased and trimmed, is no key of the
  registry; a join to a party of eight members. The reply goes to the sender. For the
  invalid inputs of \<open>silent_cases\<close> (an unparseable payload, an unknown kind, a state, chat
  or event message from an unresolved handle or for a missing party) the handler returns
  with no call of \<^verbatim>\<open>send\<close> and the state it started from.
\<close>

lemma uncaught_throws:
  assumes "uncaught_cases e s w raw"
  shows "on_message e s w raw = Some (Throws TypeError s [])"
proof (cases raw)
  case Unparseable
  with assms show ?thesis by (simp add: uncaught_cases_def)
next
  case (Parsed msg)
  show ?thesis
  proof (cases "msg = JNull")
    case True
    with Parsed show ?thesis by (simp add: on_message_def)
  next
    case False
    with assms Parsed have j: "get msg ''type'' = Some (JStr ''join'')"
      and c: "Map_get (clients s) w = None" and n: "norm_code e msg = None"
      by (simp_all add: uncaught_cases_def)
    from c n show ?thesis
      unfolding Parsed on_message_join [OF j] by (simp add: join_handler_badcode)
  qed
qed

theorem error_reply_iff:
  assumes "\<not> uncaught_cases e s w raw"
  shows "((\<exists>m. (w', Error m) \<in> set (calls_of (on_message e s w raw))) \<longleftrightarrow>
            w' = w \<and> error_cases e s w raw) \<and>
         (silent_cases s w raw \<longrightarrow> on_message e s w raw = Some (Returns s []))"
proof (cases raw)
  case Unparseable
  then show ?thesis by (simp add: on_message_def error_cases_def silent_cases_def)
next
  case (Parsed msg)
  show ?thesis
  proof (cases msg rule: kind_cases)
    case null
    with Parsed assms show ?thesis by (simp add: uncaught_cases_def)
  next
    case create
    with Parsed show ?thesis
      by (auto simp: on_message_create error_cases_def silent_cases_def kinds_def Map_has_get
            create_handler_no_error split: option.splits)
  next
    case join
    with Parsed assms show ?thesis
      using join_handler_error [of w' e s w msg]
      by (auto simp: on_message_join error_cases_def silent_cases_def kinds_def Map_has_get
            uncaught_cases_def split: option.splits)
  next
    case state
    with Parsed show ?thesis
      using state_handler_no_error [of w' _ e s _ msg]
      by (auto simp: on_message_state error_cases_def silent_cases_def kinds_def Map_has_get
            state_handler_def split: option.splits)
  next
    case chat
    with Parsed show ?thesis
      using chat_handler_no_error [of w' _ e s w _ msg]
      by (auto simp: on_message_chat error_cases_def silent_cases_def kinds_def Map_has_get
            chat_handler_def Let_def split: option.splits)
  next
    case event
    with Parsed show ?thesis
      using event_handler_no_error [of w' _ e s _ msg]
      by (auto simp: on_message_event error_cases_def silent_cases_def kinds_def Map_has_get
            event_handler_def Let_def split: option.splits)
  next
    case other
    with Parsed show ?thesis
      by (auto simp: on_message_other error_cases_def silent_cases_def kinds_def)
  qed
qed

text \<open>Instances: the four error replies, a join that is answered with no error, and three
  inputs that are dropped.\<close>

theorem error_reply_iff_witness:
  "(\<exists>m. (1, Error m) \<in> set (calls_of (on_message sample_env (sample_state 2) 1 (Parsed create_msg)))) \<and>
   (\<exists>m. (2, Error m) \<in> set (calls_of (on_message sample_env (sample_state 2) 2 (Parsed (join_msg ''abcd''))))) \<and>
   (\<exists>m. (9, Error m) \<in> set (calls_of (on_message sample_env (sample_state 2) 9 (Parsed (join_msg ''zzzz''))))) \<and>
   (\<exists>m. (9, Error m) \<in> set (calls_of (on_message sample_env (sample_state 8) 9 (Parsed (join_msg ''abcd''))))) \<and>
   \<not> (\<exists>m. (9, Error m) \<in> set (calls_of (on_message sample_env (sample_state 2) 9 (Parsed (join_msg ''abcd''))))) \<and>
   on_message sample_env (sample_state 2) 9 Unparseable = Some (Returns (sample_state 2) []) \<and>
   on_message sample_env (sample_state 2) 9 (Parsed (state_msg [])) = Some (Returns (sample_state 2) []) \<and>
   on_message sample_env (sample_state 2) 1 (Parsed (JObj [(''type'', JStr ''ping'')])) =
     Some (Returns (sample_state 2) [])"
proof -
  have c1: "error_cases sample_env (sample_state 2) 1 (Parsed create_msg)"
    and c2: "error_cases sample_env (sample_state 2) 2 (Parsed (join_msg ''abcd''))"
    and c3: "error_cases sample_env (sample_state 2) 9 (Parsed (join_msg ''zzzz''))"
    and c4: "error_cases sample_env (sample_state 8) 9 (Parsed (join_msg ''abcd''))"
    and c5: "\<not> error_cases sample_env (sample_state 2) 9 (Parsed (join_msg ''abcd''))"
    by (simp_all add: error_cases_def handler_defs sample_defs)
  have s1: "silent_cases (sample_state 2) 9 Unparseable"
    and s2: "silent_cases (sample_state 2) 9 (Parsed (state_msg []))"
    and s3: "silent_cases (sample_state 2) 1 (Parsed (JObj [(''type'', JStr ''ping'')]))"
    by (simp_all add: silent_cases_def kinds_def handler_defs sample_defs)
  have u1: "\<not> uncaught_cases sample_env (sample_state 2) 1 (Parsed create_msg)"
    and u2: "\<not> uncaught_cases sample_env (sample_state 2) 2 (Parsed (join_msg ''abcd''))"
    and u3: "\<not> uncaught_cases sample_env (sample_state 2) 9 (Parsed (join_msg ''zzzz''))"
    and u4: "\<not> uncaught_cases sample_env (sample_state 8) 9 (Parsed (join_msg ''abcd''))"
    and u5: "\<not> uncaught_cases sample_env (sample_state 2) 9 (Parsed (join_msg ''abcd''))"
    and u6: "\<not> uncaught_cases sample_env (sample_state 2) 9 Unparseable"
    and u7: "\<not> uncaught_cases sample_env (sample_state 2) 9 (Parsed (state_msg []))"
    and u8: "\<not> uncaught_cases sample_env (sample_state 2) 1 (Parsed (JObj [(''type'', JStr ''ping'')]))"
    by (simp_all add: uncaught_cases_def handler_defs sample_defs)
  show ?thesis
    using error_reply_iff [OF u1, of 1] error_reply_iff [OF u2, of 2]
      error_reply_iff [OF u3, of 9] error_reply_iff [OF u4, of 9]
      error_reply_iff [OF u5, of 9] error_reply_iff [OF u6, of 9]
      error_reply_iff [OF u7, of 9] error_reply_iff [OF u8, of 1]
      c1 c2 c3 c4 c5 s1 s2 s3
    by blast
qed

text \<open>
  Claim C8 (an exception escapes the handler where the claim has an error reply, and
  where it has a silent drop). With the party \<open>ABCD\<close> in the registry, the unresolved
  connection 9 sends a join whose code is the number 5: no registry entry has that code,
  the third of the four conditions, yet no \<open>error\<close> reply is sent, for
  \<^verbatim>\<open>(msg.code || '').toUpperCase()\<close> throws a TypeError. The payload \<^verbatim>\<open>null\<close> parses and has no
  message kind, one of the inputs to be dropped silently, yet the handler does not return:
  \<^verbatim>\<open>msg.type\<close> throws a TypeError. In both runs the exception escapes the handler.
\<close>

theorem error_reply_uncaught:
  "error_cases sample_env (sample_state 2) 9
     (Parsed (JObj [(''type'', JStr ''join''), (''code'', JNum (Fin 5))])) \<and>
   on_message sample_env (sample_state 2) 9
     (Parsed (JObj [(''type'', JStr ''join''), (''code'', JNum (Fin 5))])) =
     Some (Throws TypeError (sample_state 2) []) \<and>
   silent_cases (sample_state 2) 9 (Parsed JNull) \<and>
   on_message sample_env (sample_state 2) 9 (Parsed JNull) =
     Some (Throws TypeError (sample_state 2) [])"
  by (simp add: error_cases_def silent_cases_def kinds_def handler_defs sample_defs)

text \<open>
  Claim C5, as amended. In a reachable state whose id counter is still exact, take a join
  from a handle that does not resolve to a member, whose code normalises to the code of a
  party. If the party has eight members the handler replies \<open>Party is full (max 8).\<close> and
  leaves the whole state unchanged. If it has seven, and the handler can take the name of
  the message (\<^verbatim>\<open>(msg.name || genName()).slice(0, 20)\<close> and its printing in the log line do
  not throw), the handler returns, the party has its seven members followed by the new
  one, eight in all, and the handle resolves to the new player.
\<close>

theorem join_capacity:
  assumes "reachable s" and "nextId s < 2 ^ 53"
    and "Map_get (clients s) w = None"
    and "get msg ''type'' = Some (JStr ''join'')"
    and "norm_code e msg = Some code"
    and "Map_get (parties s) code = Some party"
  shows "(Map_size (pt_members party) = 8 \<longrightarrow>
            on_message e s w (Parsed msg) =
              Some (Returns s [(w, Error ''Party is full (max 8).'')])) \<and>
         (Map_size (pt_members party) = 7 \<longrightarrow> pick_name e msg = Some (name, k) \<longrightarrow>
          ToString (NumberToString e) name \<noteq> None \<longrightarrow>
            (\<exists>out. on_message e s w (Parsed msg) =
                     Some (Returns (joined_state s w code party name) out)) \<and>
            Map_get (parties (joined_state s w code party name)) code =
              Some (party\<lparr>pt_members :=
                      pt_members party @ [(String_nat (nextId s), length (heap s))]\<rparr>) \<and>
            Map_size (pt_members party @ [(String_nat (nextId s), length (heap s))]) = 8 \<and>
            Map_get (clients (joined_state s w code party name)) w = Some (length (heap s)))"
proof (intro conjI impI)
  assume "Map_size (pt_members party) = 8"
  with assms(3-6) show "on_message e s w (Parsed msg) =
      Some (Returns s [(w, Error ''Party is full (max 8).'')])"
    by (simp add: on_message_join join_handler_full)
next
  assume size: "Map_size (pt_members party) = 7"
    and name: "pick_name e msg = Some (name, k)"
    and printable: "ToString (NumberToString e) name \<noteq> None"
  from printable obtain t where t: "ToString (NumberToString e) name = Some t" by auto
  from size have room: "Map_size (pt_members party) < 8" by simp
  from assms(3,4) join_handler_joined [OF assms(5,6) room name t, of w]
  show "\<exists>out. on_message e s w (Parsed msg) =
      Some (Returns (joined_state s w code party name) out)"
    by (simp add: on_message_join)
  from assms(6) have "(code, party) \<in> set (parties s)" by (rule Map_get_in)
  from fresh_member_id [OF reachable_inv_ids [OF assms(1)] assms(2) this]
  have "Map_set (pt_members party) (String_nat (nextId s)) (length (heap s)) =
        pt_members party @ [(String_nat (nextId s), length (heap s))]"
    by (rule Map_set_fresh)
  then show "Map_get (parties (joined_state s w code party name)) code =
      Some (party\<lparr>pt_members := pt_members party @ [(String_nat (nextId s), length (heap s))]\<rparr>)"
    by (simp add: joined_state_def Map_get_set)
  from size show "Map_size (pt_members party @ [(String_nat (nextId s), length (heap s))]) = 8"
    by (simp add: Map_size_def)
  show "Map_get (clients (joined_state s w code party name)) w = Some (length (heap s))"
    by (simp add: joined_state_def Map_get_set)
qed

text \<open>The witness: a ninth connection is refused, and the eighth member joins the party of
  seven.\<close>

theorem join_capacity_witness:
  "on_message sample_env (sample_state 8) 9 (Parsed (join_msg ''abcd'')) =
     Some (Returns (sample_state 8) [(9, Error ''Party is full (max 8).'')]) \<and>
   (\<exists>out. on_message sample_env (sample_state 7) 8 (Parsed (join_msg ''abcd'')) =
            Some (Returns (sample_state 8) out)) \<and>
   Map_get (parties (sample_state 8)) ''ABCD'' =
     Some ((sample_party 7)\<lparr>pt_members :=
             pt_members (sample_party 7) @ [(''8'', 7)]\<rparr>) \<and>
   Map_size (pt_members (sample_party 7) @ [(''8'', 7)]) = 8"
proof -
  have r8: "reachable (sample_state 8)" and r7: "reachable (sample_state 7)"
    by (rule reachable_sample; simp)+
  have n8: "nextId (sample_state 8) < 2 ^ 53" and n7: "nextId (sample_state 7) < 2 ^ 53"
    by (simp_all add: sample_state_def)
  have u8: "Map_get (clients (sample_state 8)) 9 = None"
    and u7: "Map_get (clients (sample_state 7)) 8 = None"
    by (simp_all add: handler_defs sample_defs)
  have ty: "get (join_msg ''abcd'') ''type'' = Some (JStr ''join'')"
    by (simp add: join_msg_def)
  have code: "norm_code sample_env (join_msg ''abcd'') = Some ''ABCD''"
    by (simp add: handler_defs sample_defs)
  have p8: "Map_get (parties (sample_state 8)) ''ABCD'' = Some (sample_party 8)"
    and p7: "Map_get (parties (sample_state 7)) ''ABCD'' = Some (sample_party 7)"
    by (simp_all add: handler_defs sample_defs)
  have full: "Map_size (pt_members (sample_party 8)) = 8"
    and room: "Map_size (pt_members (sample_party 7)) = 7"
    by (simp_all add: handler_defs sample_defs)
  have name: "pick_name sample_env (join_msg ''abcd'') = Some (JStr ''Bob'', 0)"
    and printable: "ToString (NumberToString sample_env) (JStr ''Bob'') \<noteq> None"
    by (simp_all add: handler_defs sample_defs)
  have js: "joined_state (sample_state 7) 8 ''ABCD'' (sample_party 7) (JStr ''Bob'') =
            sample_state 8"
    by (simp add: joined_state_def handler_defs sample_defs)
  from join_capacity [OF r8 n8 u8 ty code p8] full
    join_capacity [OF r7 n7 u7 ty code p7, of "JStr ''Bob''" 0] room name printable js
  show ?thesis
    by (simp add: sample_state_def String_nat_lt10 digit_char_def)
qed

text \<open>The claim as stated fails when the handle already resolves to a member: a member of
  the full party that sends a join for it is answered \<open>Already in a party.\<close>, the check
  that comes first.\<close>

theorem join_capacity_counterexample:
  "reachable (sample_state 8) \<and>
   Map_get (parties (sample_state 8)) ''ABCD'' = Some (sample_party 8) \<and>
   Map_size (pt_members (sample_party 8)) = 8 \<and>
   norm_code sample_env (join_msg ''abcd'') = Some ''ABCD'' \<and>
   on_message sample_env (sample_state 8) 1 (Parsed (join_msg ''abcd'')) =
     Some (Returns (sample_state 8) [(1, Error ''Already in a party.'')]) \<and>
   ''Already in a party.'' \<noteq> ''Party is full (max 8).''"
proof -
  have "reachable (sample_state 8)" by (rule reachable_sample) simp_all
  then show ?thesis by (simp add: handler_defs sample_defs)
qed

text \<open>
  The recipients of the state and event broadcasts. In a reachable state, let the
  connection \<open>w\<close> resolve to a member whose party exists. A state message whose state object can be built (no coercion throws) and every
  event message make the handler return after one broadcast that excludes the sender's
  id, of \<open>state{id, ...}\<close> resp. \<open>event{id, ev, data}\<close>, where \<open>data\<close> is the empty object when
  the message has none. Whatever the object, the calls of such a broadcast never address
  \<open>w\<close>, address no connection twice and, while the id counter is exact, address exactly
  the connections of the party's members other than \<open>w\<close>.
\<close>

theorem state_event_recipients:
  assumes "reachable s" and "Map_get (clients s) w = Some a"
    and "Map_get (parties s) (p_partyCode (heap s ! a)) = Some party"
  shows "(get msg ''type'' = Some (JStr ''state'') \<longrightarrow> state_of e msg = Some st \<longrightarrow>
            (\<exists>s'. on_message e s w (Parsed msg) =
               Some (Returns s'
                 (broadcast (heap s) party (State (p_id (heap s ! a)) st)
                    (Some (p_id (heap s ! a))))))) \<and>
         (get msg ''type'' = Some (JStr ''event'') \<longrightarrow>
            on_message e s w (Parsed msg) =
              Some (Returns s
                (broadcast (heap s) party
                   (Event (p_id (heap s ! a)) (get msg ''ev'') (or_else (get msg ''data'') (JObj [])))
                   (Some (p_id (heap s ! a)))))) \<and>
         (get msg ''data'' = None \<longrightarrow> or_else (get msg ''data'') (JObj []) = JObj []) \<and>
         w \<notin> fst ` set (broadcast (heap s) party obj (Some (p_id (heap s ! a)))) \<and>
         distinct (map fst (broadcast (heap s) party obj (Some (p_id (heap s ! a))))) \<and>
         (nextId s < 2 ^ 53 \<longrightarrow>
            fst ` set (broadcast (heap s) party obj (Some (p_id (heap s ! a)))) =
              membership s party - {w})"
proof -
  let ?id = "p_id (heap s ! a)"
  note link = reachable_inv_link [OF assms(1)]
  note keys = reachable_inv_keys [OF assms(1)]
  note member = reachable_inv_member [OF assms(1)]
  from assms(3) have cp: "(p_partyCode (heap s ! a), party) \<in> set (parties s)"
    by (rule Map_get_in)
  have rec: "fst ` set (broadcast (heap s) party obj (Some ?id)) =
             conn s ` {m \<in> set (pt_members party). fst m \<noteq> ?id}"
  proof -
    have "fst ` set (broadcast (heap s) party obj (Some ?id)) =
          set (map fst (broadcast (heap s) party obj (Some ?id)))" by simp
    also have "\<dots> = conn s ` {m \<in> set (pt_members party). fst m \<noteq> ?id}"
      unfolding broadcast_recipients by auto
    finally show ?thesis .
  qed
  have state: "get msg ''type'' = Some (JStr ''state'') \<longrightarrow> state_of e msg = Some st \<longrightarrow>
            (\<exists>s'. on_message e s w (Parsed msg) =
               Some (Returns s' (broadcast (heap s) party (State ?id st) (Some ?id))))"
    using assms(2,3) by (simp add: on_message_state state_handler_calls)
  have event: "get msg ''type'' = Some (JStr ''event'') \<longrightarrow>
            on_message e s w (Parsed msg) =
              Some (Returns s
                (broadcast (heap s) party
                   (Event ?id (get msg ''ev'') (or_else (get msg ''data'') (JObj []))) (Some ?id)))"
    using assms(2,3) by (simp add: on_message_event event_handler_calls)
  have data: "get msg ''data'' = None \<longrightarrow> or_else (get msg ''data'') (JObj []) = JObj []"
    by simp
  have nothing_back: "w \<notin> fst ` set (broadcast (heap s) party obj (Some ?id))"
    unfolding rec using sender_excluded [OF link assms(2) cp] by auto
  have once: "distinct (map fst (broadcast (heap s) party obj (Some ?id)))"
  proof -
    from keys cp have "distinct (map fst (pt_members party))" unfolding inv_keys_def by blast
    then have "distinct (pt_members party)" by (rule distinct_map [THEN iffD1, THEN conjunct1])
    then have "distinct (filter (\<lambda>m. Some (fst m) \<noteq> Some ?id) (pt_members party))" by simp
    moreover have "inj_on (conn s) (set (filter (\<lambda>m. Some (fst m) \<noteq> Some ?id) (pt_members party)))"
      by (rule inj_on_subset [OF conn_inj [OF link cp]]) auto
    ultimately show ?thesis
      unfolding broadcast_recipients by (simp add: distinct_map)
  qed
  have all: "nextId s < 2 ^ 53 \<longrightarrow>
      fst ` set (broadcast (heap s) party obj (Some ?id)) = membership s party - {w}"
  proof
    assume n: "nextId s < 2 ^ 53"
    show "fst ` set (broadcast (heap s) party obj (Some ?id)) = membership s party - {w}"
      unfolding rec membership_def
    proof (intro set_eqI iffI)
      fix x
      assume "x \<in> conn s ` {m \<in> set (pt_members party). fst m \<noteq> ?id}"
      then obtain m where m: "m \<in> set (pt_members party)" "fst m \<noteq> ?id" "x = conn s m"
        by blast
      from sender_excluded [OF link assms(2) cp m(1)] m(2) have "conn s m \<noteq> w" by blast
      with m show "x \<in> conn s ` set (pt_members party) - {w}" by blast
    next
      fix x
      assume "x \<in> conn s ` set (pt_members party) - {w}"
      then obtain m where m: "m \<in> set (pt_members party)" "x = conn s m" "conn s m \<noteq> w"
        by blast
      from only_sender_excluded [OF link keys member n assms(2,3) m(1)] m(3)
      have "fst m \<noteq> ?id" by blast
      with m show "x \<in> conn s ` {m \<in> set (pt_members party). fst m \<noteq> ?id}" by blast
    qed
  qed
  show ?thesis
    by (intro conjI state event data nothing_back once all)
qed

text \<open>An instance: in the party of the connections 1, 2 and 3, a state message and an
  event message of connection 1 are sent to 2 and 3.\<close>

theorem state_event_recipients_witness:
  "(\<exists>s'. on_message sample_env (sample_state 3) 1 (Parsed (state_msg [(''x'', JNum (Fin 5))])) =
      Some (Returns s' [(2, State ''1'' sample_st), (3, State ''1'' sample_st)])) \<and>
   on_message sample_env (sample_state 3) 1 (Parsed (event_msg [(''ev'', JStr ''grab'')])) =
      Some (Returns (sample_state 3)
        [(2, Event ''1'' (Some (JStr ''grab'')) (JObj [])),
         (3, Event ''1'' (Some (JStr ''grab'')) (JObj []))]) \<and>
   membership (sample_state 3) (sample_party 3) = {1, 2, 3} \<and>
   fst ` set (broadcast (heap (sample_state 3)) (sample_party 3) (Left []) (Some ''1'')) = {2, 3}"
proof -
  have r: "reachable (sample_state 3)" by (rule reachable_sample) simp_all
  have c: "Map_get (clients (sample_state 3)) 1 = Some 0"
    by (simp add: handler_defs sample_defs)
  have p: "Map_get (parties (sample_state 3)) (p_partyCode (heap (sample_state 3) ! 0)) =
             Some (sample_party 3)"
    by (simp add: handler_defs sample_state_def sample_player_def upt_conv_Cons)
  have ts: "get (state_msg [(''x'', JNum (Fin 5))]) ''type'' = Some (JStr ''state'')"
    and te: "get (event_msg [(''ev'', JStr ''grab'')]) ''type'' = Some (JStr ''event'')"
    and nd: "get (event_msg [(''ev'', JStr ''grab'')]) ''data'' = None"
    by (simp_all add: state_msg_def event_msg_def)
  have st: "state_of sample_env (state_msg [(''x'', JNum (Fin 5))]) = Some sample_st"
    by (simp add: handler_defs sample_defs sample_st_def)
  have n: "nextId (sample_state 3) < 2 ^ 53" by (simp add: sample_state_def)
  have id1: "p_id (heap (sample_state 3) ! 0) = ''1''"
    by (simp add: sample_defs)
  have b: "broadcast (heap (sample_state 3)) (sample_party 3) obj (Some ''1'') = [(2, obj), (3, obj)]"
    for obj
    by (simp add: handler_defs sample_defs)
  have m: "membership (sample_state 3) (sample_party 3) = {1, 2, 3}"
    by (auto simp: membership_def conn_def sample_defs)
  from state_event_recipients [OF r c p, of "state_msg [(''x'', JNum (Fin 5))]" sample_env sample_st "Left []"]
    state_event_recipients [OF r c p, of "event_msg [(''ev'', JStr ''grab'')]" sample_env sample_st "Left []"]
    ts te nd st n m
  show ?thesis
    by (simp add: id1 b event_msg_def)
qed

text \<open>
  Claim C7 (the code makes no broadcast for a state message with a field that cannot be
  coerced). In the party of the connections 1 and 2, connection 1 resolves to a member
  and its party exists, and the membership minus the sender is the connection 2. For the
  state message whose \<^verbatim>\<open>x\<close> is the parsed object \<^verbatim>\<open>{"toString": 1}\<close>, the unary plus of
  \<^verbatim>\<open>+msg.x\<close> throws a TypeError before the broadcast: no call of \<^verbatim>\<open>send\<close> is made, so the
  recipient set is empty. For the event messages, and for the state messages whose
  fields can all be coerced, the rule of the claim is the preceding theorem.
\<close>

theorem state_broadcast_throws:
  "Map_get (clients (sample_state 2)) 1 = Some 0 \<and>
   Map_get (parties (sample_state 2)) (p_partyCode (heap (sample_state 2) ! 0)) =
     Some (sample_party 2) \<and>
   membership (sample_state 2) (sample_party 2) - {1} = {2} \<and>
   on_message sample_env (sample_state 2) 1
     (Parsed (state_msg [(''x'', JObj [(''toString'', JNum (Fin 1))])])) =
     Some (Throws TypeError (sample_state 2) [])"
proof -
  have "membership (sample_state 2) (sample_party 2) = {1, 2}"
    by (auto simp: membership_def conn_def sample_defs)
  then have "membership (sample_state 2) (sample_party 2) - {1} = {2}" by auto
  moreover have "Map_get (parties (sample_state 2)) (p_partyCode (heap (sample_state 2) ! 0)) =
     Some (sample_party 2)"
    by (simp add: handler_defs sample_state_def sample_player_def upt_conv_Cons)
  ultimately show ?thesis by (simp add: handler_defs sample_defs)
qed

text \<open>
  Claim C6, as amended. In a reachable state, let the connection \<open>w\<close> resolve to a member
  whose party exists, and let the state object of a state message be built (no coercion
  throws). Then the handler returns, the object is broadcast with the sender's id and is
  stored as the \<^verbatim>\<open>lastState\<close> of the sender's player object. Each of \<open>x\<close>, \<open>y\<close>, \<open>z\<close>, \<open>yaw\<close>,
  \<open>pitch\<close> is 0 when the field is absent, falsy or coerces under unary plus to NaN (as
  \<open>"abc"\<close> does) or to a zero, and the number the field coerces to otherwise: a number that
  is not falsy passes unchanged, \<^verbatim>\<open>true\<close> becomes 1 and a string that is a numeral becomes
  its value. \<open>chap\<close> follows the same rule with the fallback 1: 0 gives 1, -1 stays -1.
  \<open>anim\<close> is \<open>"idle"\<close> when absent or falsy and the value itself otherwise.
\<close>

theorem state_coercion:
  assumes "reachable s" and "Map_get (clients s) w = Some a"
    and "Map_get (parties s) (p_partyCode (heap s ! a)) = Some party"
    and "get msg ''type'' = Some (JStr ''state'')"
    and "state_of e msg = Some st"
  shows "(\<exists>s'. on_message e s w (Parsed msg) =
            Some (Returns s'
              (broadcast (heap s) party (State (p_id (heap s ! a)) st)
                 (Some (p_id (heap s ! a))))) \<and>
            Map_get (clients s') w = Some a \<and> p_lastState (heap s' ! a) = Some st) \<and>
         coerces e (get msg ''x'') (Fin 0) (st_x st) \<and>
         coerces e (get msg ''y'') (Fin 0) (st_y st) \<and>
         coerces e (get msg ''z'') (Fin 0) (st_z st) \<and>
         coerces e (get msg ''yaw'') (Fin 0) (st_yaw st) \<and>
         coerces e (get msg ''pitch'') (Fin 0) (st_pitch st) \<and>
         coerces e (get msg ''chap'') (Fin 1) (st_chap st) \<and>
         (StringToNumber e ''abc'' = NaN \<longrightarrow> get msg ''x'' = Some (JStr ''abc'') \<longrightarrow>
            st_x st = Fin 0) \<and>
         (get msg ''chap'' = Some (JNum (Fin 0)) \<longrightarrow> st_chap st = Fin 1) \<and>
         (get msg ''chap'' = Some (JNum (Fin (- 1))) \<longrightarrow> st_chap st = Fin (- 1)) \<and>
         (\<not> truthy (get msg ''anim'') \<longrightarrow> st_anim st = JStr ''idle'') \<and>
         (\<forall>j. get msg ''anim'' = Some j \<longrightarrow> truthy (Some j) \<longrightarrow> st_anim st = j)"
proof -
  note f = state_of_fields [OF assms(5)]
  from assms(2) have "(w, a) \<in> set (clients s)" by (rule Map_get_in)
  with reachable_inv_link [OF assms(1)] have a: "a < length (heap s)"
    unfolding inv_link_def by blast
  have run: "\<exists>s'. on_message e s w (Parsed msg) =
            Some (Returns s'
              (broadcast (heap s) party (State (p_id (heap s ! a)) st)
                 (Some (p_id (heap s ! a))))) \<and>
            Map_get (clients s') w = Some a \<and> p_lastState (heap s' ! a) = Some st"
    using assms(2-5) a by (simp add: on_message_state state_handler_calls)
  note c = f(1-6) [THEN num_or_coerces]
  have abc: "StringToNumber e ''abc'' = NaN \<longrightarrow> get msg ''x'' = Some (JStr ''abc'') \<longrightarrow>
            st_x st = Fin 0"
    using c(1) by (auto simp: coerces_def str_num_def)
  have zero: "get msg ''chap'' = Some (JNum (Fin 0)) \<longrightarrow> st_chap st = Fin 1"
    using c(6) by (auto simp: coerces_def)
  have minus: "get msg ''chap'' = Some (JNum (Fin (- 1))) \<longrightarrow> st_chap st = Fin (- 1)"
    using c(6) by (auto simp: coerces_def)
  have idle: "\<not> truthy (get msg ''anim'') \<longrightarrow> st_anim st = JStr ''idle''"
    using f(7) by (simp add: or_else_falsy)
  have anim: "\<forall>j. get msg ''anim'' = Some j \<longrightarrow> truthy (Some j) \<longrightarrow> st_anim st = j"
    using f(7) by simp
  show ?thesis
    by (intro conjI run c abc zero minus idle anim)
qed

text \<open>The witness: \<^verbatim>\<open>{x: "abc", y: 5, pitch: "5", chap: -1}\<close> from connection 1 in the party
  of 1 and 2; the rule gives the field \<^verbatim>\<open>"5"\<close> the value 5 and no other.\<close>

theorem state_coercion_witness:
  "(\<exists>s'. on_message sample_env (sample_state 2) 1 (Parsed sample_state_msg) =
      Some (Returns s' [(2, State ''1'' sample_st2)]) \<and>
      p_lastState (heap s' ! 0) = Some sample_st2) \<and>
   state_of sample_env sample_state_msg = Some sample_st2 \<and>
   st_x sample_st2 = Fin 0 \<and> st_z sample_st2 = Fin 0 \<and> st_chap sample_st2 = Fin (- 1) \<and>
   st_anim sample_st2 = JStr ''idle'' \<and> st_pitch sample_st2 = Fin 5 \<and>
   {r. coerces sample_env (Some (JStr ''5'')) (Fin 0) r} = {Fin 5}"
proof -
  have r: "reachable (sample_state 2)" by (rule reachable_sample) simp_all
  have c: "Map_get (clients (sample_state 2)) 1 = Some 0"
    by (simp add: handler_defs sample_defs)
  have p: "Map_get (parties (sample_state 2)) (p_partyCode (heap (sample_state 2) ! 0)) =
             Some (sample_party 2)"
    by (simp add: handler_defs sample_state_def sample_player_def upt_conv_Cons)
  have t: "get sample_state_msg ''type'' = Some (JStr ''state'')"
    and x: "get sample_state_msg ''x'' = Some (JStr ''abc'')"
    and z: "get sample_state_msg ''z'' = None"
    and pi: "get sample_state_msg ''pitch'' = Some (JStr ''5'')"
    and ch: "get sample_state_msg ''chap'' = Some (JNum (Fin (- 1)))"
    and an: "\<not> truthy (get sample_state_msg ''anim'')"
    by (simp_all add: sample_state_msg_def state_msg_def)
  have st: "state_of sample_env sample_state_msg = Some sample_st2"
    by (simp add: handler_defs sample_defs sample_st2_def sample_state_msg_def)
  have abc: "StringToNumber sample_env ''abc'' = NaN" by (simp add: sample_env_def)
  have b: "broadcast (heap (sample_state 2)) (sample_party 2) obj (Some ''1'') = [(2, obj)]" for obj
    by (simp add: handler_defs sample_defs)
  have id1: "p_id (heap (sample_state 2) ! 0) = ''1''"
    by (simp add: sample_defs)
  note sc = state_coercion [OF r c p t st]
  from sc [THEN conjunct1]
  have run: "\<exists>s'. on_message sample_env (sample_state 2) 1 (Parsed sample_state_msg) =
      Some (Returns s' [(2, State ''1'' sample_st2)]) \<and>
      p_lastState (heap s' ! 0) = Some sample_st2"
    by (auto simp: id1 b)
  from sc x abc have x0: "st_x sample_st2 = Fin 0" by blast
  from sc ch have chap: "st_chap sample_st2 = Fin (- 1)" by blast
  from sc an have idle: "st_anim sample_st2 = JStr ''idle''" by blast
  from sc z have z0: "st_z sample_st2 = Fin 0" unfolding coerces_def by blast
  have five: "ToNumber sample_env (Some (JStr ''5'')) = Some (Fin 5)"
    by (simp add: str_num_def sample_env_def)
  from sc have "coerces sample_env (get sample_state_msg ''pitch'') (Fin 0) (st_pitch sample_st2)"
    by blast
  then have pitch: "st_pitch sample_st2 = Fin 5"
    unfolding pi coerces_exact [OF five] by simp
  have only: "{r. coerces sample_env (Some (JStr ''5'')) (Fin 0) r} = {Fin 5}"
    unfolding coerces_exact [OF five] by simp
  from run st x0 z0 chap idle pitch only show ?thesis by blast
qed

text \<open>The claim as stated fails on fields that are not numbers and do not become 0:
  \<^verbatim>\<open>x: true\<close> is stored and broadcast as 1; \<^verbatim>\<open>x: {"toString": 1}\<close> makes unary plus throw a
  TypeError, and nothing is stored or sent.\<close>

theorem state_coercion_counterexample:
  "on_message sample_env (sample_state 2) 1 (Parsed (state_msg [(''x'', JBool True)])) =
     Some (Returns
       ((sample_state 2)\<lparr>heap := (heap (sample_state 2))
           [0 := (sample_player 1)\<lparr>p_lastState := Some (sample_st\<lparr>st_x := Fin 1\<rparr>)\<rparr>]\<rparr>)
       [(2, State ''1'' (sample_st\<lparr>st_x := Fin 1\<rparr>))]) \<and>
   Fin 1 \<noteq> Fin 0 \<and>
   on_message sample_env (sample_state 2) 1
     (Parsed (state_msg [(''x'', JObj [(''toString'', JNum (Fin 1))])])) =
     Some (Throws TypeError (sample_state 2) [])"
  by (simp add: handler_defs sample_defs sample_st_def)

end
